theory Spec2Isabelle
  imports Complex_Main "HOL-Library.Word" "HOL-Library.Finite_Map"
begin

section \<open>Data model\<close>

text \<open>
  The query engine of hydrosheds: \<^verbatim>\<open>bbox.hpp\<close>, \<^verbatim>\<open>tile_cache.hpp\<close>,
  \<^verbatim>\<open>tile_cache.cpp\<close>, \<^verbatim>\<open>parallel_for.hpp\<close> and \<^verbatim>\<open>dataset.cpp\<close>.

  \<^item> \<^verbatim>\<open>size_t\<close> is a 64-bit word; \<^verbatim>\<open>int\<close> is a 32-bit word read with \<open>sint\<close>/\<open>scast\<close>;
    \<^verbatim>\<open>char\<close> is an 8-bit word.
  \<^item> A finite \<^verbatim>\<open>double\<close> is the real number it denotes. Comparisons and the cast to
    \<^verbatim>\<open>size_t\<close> are exact on that value. Every \<^verbatim>\<open>+\<close>, \<^verbatim>\<open>-\<close>, \<^verbatim>\<open>*\<close> and \<^verbatim>\<open>/\<close> on doubles rounds
    its exact result to the nearest binary64 value, ties to even, as IEEE 754 arithmetic
    does; a result that is an infinity or a NaN (overflow, division by zero) is \<open>None\<close>.
  \<^item> \<^verbatim>\<open>std::unordered_map\<close> is a finite map, \<^verbatim>\<open>std::list\<close> a list with its front at the head.
  \<^item> A C++ exception is an \<open>Inl\<close> result. Behaviour the language leaves undefined (reading
    \<^verbatim>\<open>back()\<close> of an empty list, an integer division by zero, an unrepresentable cast, an
    index past the end of a vector) is the result \<open>Inl (Undefined _)\<close>, never a HOL default.
\<close>

type_synonym size_t = "64 word"
type_synonym double = real
type_synonym TileKey = "32 word \<times> 32 word"
type_synonym tile = "8 word list"

datatype undefined_behaviour =
  BackOfEmptyList | DivisionByZero | CastOutOfRange | IndexOutOfRange

datatype error =
  SizeMismatch        \<comment> \<open>\<^verbatim>\<open>std::invalid_argument("lon and lat must have the same size")\<close>\<close>
| TransformError      \<comment> \<open>\<^verbatim>\<open>std::runtime_error("Failed to transform coordinates.")\<close>\<close>
| OutOfBounds         \<comment> \<open>\<^verbatim>\<open>std::runtime_error("Requested tile is out of bounds.")\<close>\<close>
| IOError             \<comment> \<open>\<^verbatim>\<open>std::runtime_error("Failed to read tile from dataset.")\<close>\<close>
| Undefined undefined_behaviour

section \<open>TileCache (tile\_cache.hpp, tile\_cache.cpp)\<close>

record TileCache =
  max_tiles :: size_t
  tile_map :: "(TileKey, tile) fmap"
  access_order :: "TileKey list"

text \<open>\<^verbatim>\<open>explicit TileCache(size_t max_tiles)\<close>: both containers start empty.\<close>

definition new_TileCache :: "size_t \<Rightarrow> TileCache" where
  "new_TileCache n = \<lparr>max_tiles = n, tile_map = fmempty, access_order = []\<rparr>"

text \<open>\<^verbatim>\<open>tile_map_.size()\<close>\<close>

definition map_size :: "(TileKey, tile) fmap \<Rightarrow> nat" where
  "map_size m = fcard (fmdom m)"

definition is_tile_in_cache :: "TileKey \<Rightarrow> TileCache \<Rightarrow> bool" where
  "is_tile_in_cache key c = (fmlookup (tile_map c) key \<noteq> None)"

text \<open>
  \<^verbatim>\<open>add_tile_to_cache\<close>: when \<^verbatim>\<open>tile_map_.size() >= max_tiles_\<close> the key at the back of
  \<^verbatim>\<open>access_order_\<close> is popped and erased from the map, whatever \<^verbatim>\<open>key\<close> is; then the tile is
  stored under \<^verbatim>\<open>key\<close> and \<^verbatim>\<open>key\<close> is pushed on the front. \<^verbatim>\<open>back()\<close> of an empty list is
  undefined behaviour.
\<close>

definition evict_if_full :: "TileCache \<Rightarrow> error + TileCache" where
  "evict_if_full c =
     (if unat (max_tiles c) \<le> map_size (tile_map c) then
        (case access_order c of
           [] \<Rightarrow> Inl (Undefined BackOfEmptyList)
         | _ # _ \<Rightarrow>
             (let deprecated_key = last (access_order c)
              in Inr (c\<lparr>access_order := butlast (access_order c),
                        tile_map := fmdrop deprecated_key (tile_map c)\<rparr>)))
      else Inr c)"

definition add_tile_to_cache :: "TileKey \<Rightarrow> tile \<Rightarrow> TileCache \<Rightarrow> error + TileCache" where
  "add_tile_to_cache key tile_data c =
     (case evict_if_full c of
        Inl e \<Rightarrow> Inl e
      | Inr c1 \<Rightarrow>
          Inr (c1\<lparr>tile_map := fmupd key tile_data (tile_map c1),
                  access_order := key # access_order c1\<rparr>))"

text \<open>
  \<^verbatim>\<open>get_tile_from_cache\<close>: \<^verbatim>\<open>access_order_.remove(key)\<close> drops every occurrence of the key,
  \<^verbatim>\<open>push_front\<close> puts it at the head, and \<^verbatim>\<open>tile_map_[key]\<close> returns the stored vector or,
  for a key the map does not hold, inserts an empty vector and returns that. Nothing is
  thrown. The model returns the vector by value together with the updated cache.
\<close>

definition get_tile_from_cache :: "TileKey \<Rightarrow> TileCache \<Rightarrow> tile \<times> TileCache" where
  "get_tile_from_cache key c =
     (let order = key # removeAll key (access_order c)
      in case fmlookup (tile_map c) key of
           Some tile_data \<Rightarrow> (tile_data, c\<lparr>access_order := order\<rparr>)
         | None \<Rightarrow> ([], c\<lparr>access_order := order, tile_map := fmupd key [] (tile_map c)\<rparr>))"

text \<open>
  The cache as a client sees it: a sequence of calls of its three public members.
\<close>

datatype cache_op = Contains TileKey | Get TileKey | Put TileKey tile

fun apply_cache_op :: "cache_op \<Rightarrow> TileCache \<Rightarrow> error + TileCache" where
  "apply_cache_op (Contains key) c = Inr c"
| "apply_cache_op (Get key) c = Inr (snd (get_tile_from_cache key c))"
| "apply_cache_op (Put key tile_data) c = add_tile_to_cache key tile_data c"

fun run_cache_ops :: "cache_op list \<Rightarrow> TileCache \<Rightarrow> error + TileCache" where
  "run_cache_ops [] c = Inr c"
| "run_cache_ops (x # xs) c =
     (case apply_cache_op x c of Inl e \<Rightarrow> Inl e | Inr c' \<Rightarrow> run_cache_ops xs c')"

text \<open>
  The discipline \<^verbatim>\<open>Dataset::is_water\<close> follows: \<^verbatim>\<open>get\<close> only for a key the cache holds,
  \<^verbatim>\<open>put\<close> only for a key it does not hold.
\<close>

fun op_allowed :: "cache_op \<Rightarrow> TileCache \<Rightarrow> bool" where
  "op_allowed (Contains key) c = True"
| "op_allowed (Get key) c = is_tile_in_cache key c"
| "op_allowed (Put key tile_data) c = (\<not> is_tile_in_cache key c)"

fun disciplined :: "cache_op list \<Rightarrow> TileCache \<Rightarrow> bool" where
  "disciplined [] c = True"
| "disciplined (x # xs) c =
     (op_allowed x c \<and>
      (case apply_cache_op x c of Inl e \<Rightarrow> True | Inr c' \<Rightarrow> disciplined xs c'))"

text \<open>
  One access the way \<^verbatim>\<open>Dataset::is_water\<close> makes it (dataset.cpp, lines 132 to 137):
  test for the key, add the freshly read tile when it is missing, then get.
\<close>

definition access_tile :: "TileKey \<Rightarrow> tile \<Rightarrow> TileCache \<Rightarrow> error + tile \<times> TileCache" where
  "access_tile key tile_data c =
     (case (if \<not> is_tile_in_cache key c then add_tile_to_cache key tile_data c else Inr c) of
        Inl e \<Rightarrow> Inl e
      | Inr c1 \<Rightarrow> Inr (get_tile_from_cache key c1))"

fun run_accesses :: "(TileKey \<times> tile) list \<Rightarrow> TileCache \<Rightarrow> error + TileCache" where
  "run_accesses [] c = Inr c"
| "run_accesses ((key, tile_data) # xs) c =
     (case access_tile key tile_data c of
        Inl e \<Rightarrow> Inl e
      | Inr (t, c') \<Rightarrow> run_accesses xs c')"

text \<open>
  The invariant of the spec: the map holds at most \<^verbatim>\<open>max_tiles\<close> entries and the recency
  list is a permutation of the map's keys.
\<close>

definition cache_inv :: "TileCache \<Rightarrow> bool" where
  "cache_inv c \<longleftrightarrow>
     map_size (tile_map c) \<le> unat (max_tiles c) \<and>
     distinct (access_order c) \<and>
     set (access_order c) = fmdom' (tile_map c)"

text \<open>
  A weaker fact that every use of the three members keeps, disciplined or not: every key of
  the map is somewhere in the recency list.
\<close>

definition keys_listed :: "TileCache \<Rightarrow> bool" where
  "keys_listed c \<longleftrightarrow> fmdom' (tile_map c) \<subseteq> set (access_order c)"

section \<open>Double arithmetic\<close>

text \<open>
  A binary64 value is \<open>m * 2 ^ e\<close> with an integer \<open>m\<close> of magnitude below \<open>2 ^ 53\<close> and
  \<open>e\<close> from \<open>- 1074\<close> to 971. \<open>nearest_double r\<close> is the value of that shape nearest to \<open>r\<close>,
  with no upper limit on the exponent: the unit in the last place is \<open>2 ^ e\<close> for
  \<open>e = \<lfloor>log 2 \<bar>r\<bar>\<rfloor> - 52\<close>, or \<open>2 ^ - 1074\<close> for subnormal results, and a tie goes to the
  even multiple. \<open>to_double\<close> adds the overflow test of round-to-nearest: a rounded
  magnitude of \<open>2 ^ 1024\<close> or more is an infinity, which the model does not hold.
\<close>

definition round_half_even :: "real \<Rightarrow> int" where
  "round_half_even t =
     (let f = \<lfloor>t\<rfloor>
      in if t - of_int f < 1 / 2 then f
         else if 1 / 2 < t - of_int f then f + 1
         else if even f then f else f + 1)"

definition nearest_double :: "real \<Rightarrow> double" where
  "nearest_double r =
     (if r = 0 then 0
      else
        (let e = max (\<lfloor>log 2 \<bar>r\<bar>\<rfloor> - 52) (- 1074)
         in of_int (round_half_even (r / 2 powi e)) * 2 powi e))"

definition to_double :: "real \<Rightarrow> double option" where
  "to_double r = (if \<bar>nearest_double r\<bar> < 2 ^ 1024 then Some (nearest_double r) else None)"

text \<open>
  The four operations on finite doubles. A division by zero gives an infinity or, for
  \<^verbatim>\<open>0.0 / 0.0\<close>, a NaN. A \<^verbatim>\<open>size_t\<close> converts to the nearest double, which is always finite.
\<close>

definition double_add :: "double \<Rightarrow> double \<Rightarrow> double option" where
  "double_add a b = to_double (a + b)"

definition double_sub :: "double \<Rightarrow> double \<Rightarrow> double option" where
  "double_sub a b = to_double (a - b)"

definition double_mul :: "double \<Rightarrow> double \<Rightarrow> double option" where
  "double_mul a b = to_double (a * b)"

definition double_div :: "double \<Rightarrow> double \<Rightarrow> double option" where
  "double_div a b = (if b = 0 then None else to_double (a / b))"

definition size_t_to_double :: "size_t \<Rightarrow> double" where
  "size_t_to_double n = nearest_double (real (unat n))"

section \<open>BBox (bbox.hpp)\<close>

record geotransform_t =
  gt0 :: double
  gt1 :: double
  gt2 :: double
  gt3 :: double
  gt4 :: double
  gt5 :: double

record BBox =
  min_x :: double
  max_x :: double
  min_y :: double
  max_y :: double

text \<open>
  The constructor: \<^verbatim>\<open>geotransform[0] + geotransform[1] * x_size\<close> and
  \<^verbatim>\<open>geotransform[3] + geotransform[5] * y_size\<close> in double arithmetic, each operation rounded
  on its own (no fused multiply-add). The result is \<open>None\<close> when a bound is an infinity:
  the fields of the record are finite doubles.
\<close>

definition new_BBox :: "geotransform_t \<Rightarrow> size_t \<Rightarrow> size_t \<Rightarrow> BBox option" where
  "new_BBox g x_size y_size =
     (case double_mul (gt1 g) (size_t_to_double x_size) of
        None \<Rightarrow> None
      | Some width \<Rightarrow>
     (case double_add (gt0 g) width of
        None \<Rightarrow> None
      | Some right \<Rightarrow>
     (case double_mul (gt5 g) (size_t_to_double y_size) of
        None \<Rightarrow> None
      | Some height \<Rightarrow>
     (case double_add (gt3 g) height of
        None \<Rightarrow> None
      | Some bottom \<Rightarrow>
          Some \<lparr>min_x = gt0 g, max_x = right, min_y = bottom, max_y = gt3 g\<rparr>))))"

definition contains :: "BBox \<Rightarrow> double \<Rightarrow> double \<Rightarrow> bool" where
  "contains b lon lat \<longleftrightarrow> lon \<ge> min_x b \<and> lon \<le> max_x b \<and> lat \<ge> min_y b \<and> lat \<le> max_y b"

section \<open>Dataset (dataset.hpp, dataset.cpp)\<close>

text \<open>
  \<^verbatim>\<open>DatasetInfo\<close>. The two GDAL objects are outside the repository and enter as the
  functions the code calls on them:
  \<^item> \<open>transform\<close> is \<^verbatim>\<open>OGRCoordinateTransformation::Transform(1, &x, &y)\<close>, \<open>None\<close> when it
    returns false;
  \<^item> \<open>raster_io\<close> is \<^verbatim>\<open>GetRasterBand(1)->RasterIO(GF_Read, x_offset, y_offset, x_size,
    y_size, buffer, buf_x_size, buf_y_size, GDT_Byte, 0, 0)\<close>, giving the buffer as the
    read leaves it, \<open>None\<close> when the result is not \<^verbatim>\<open>CE_None\<close>.
  The mutex only serialises the read and has no counterpart in a sequential model.
  Opening the rasters (\<^verbatim>\<open>init_dataset_info\<close>, the only use of \<^verbatim>\<open>espg_code_\<close>) is GDAL's work
  and is not modelled: a \<open>Dataset\<close> is taken as built.
\<close>

record DatasetInfo =
  transform :: "double \<times> double \<Rightarrow> (double \<times> double) option"
  raster_io :: "size_t \<Rightarrow> size_t \<Rightarrow> size_t \<Rightarrow> size_t \<Rightarrow> tile \<Rightarrow> size_t \<Rightarrow> size_t \<Rightarrow> tile option"
  geotransform :: geotransform_t
  bbox :: BBox
  x_size :: size_t
  y_size :: size_t

record DatsetCache =
  dataset_info :: DatasetInfo
  tile_cache :: TileCache

record Dataset =
  base_datasets :: "DatasetInfo list"
  tile_size :: size_t
  max_cache_size :: size_t

text \<open>\<^verbatim>\<open>allocate_cache\<close>: one empty cache per raster, in the order of \<^verbatim>\<open>base_datasets_\<close>.\<close>

definition allocate_cache :: "Dataset \<Rightarrow> DatsetCache list" where
  "allocate_cache ds =
     map (\<lambda>d. \<lparr>dataset_info = d, tile_cache = new_TileCache (max_cache_size ds)\<rparr>)
         (base_datasets ds)"

text \<open>
  \<^verbatim>\<open>static_cast<size_t>(q)\<close> for a double \<open>q\<close>: the fractional part is discarded (rounding
  towards zero); the behaviour is undefined when the truncated value is not a \<^verbatim>\<open>size_t\<close>.
\<close>

definition truncate :: "double \<Rightarrow> int" where
  "truncate q = (if 0 \<le> q then \<lfloor>q\<rfloor> else - \<lfloor>- q\<rfloor>)"

definition double_to_size_t :: "double \<Rightarrow> error + size_t" where
  "double_to_size_t q =
     (if 0 \<le> truncate q \<and> truncate q < 2 ^ 64 then Inr (word_of_int (truncate q))
      else Inl (Undefined CastOutOfRange))"

text \<open>
  The double \<^verbatim>\<open>(v - origin) / step\<close> of dataset.cpp lines 123 and 124: the difference is
  rounded, then the quotient of the rounded difference is rounded. \<open>None\<close> is an infinity
  or a NaN; with \<open>step = 0\<close> the quotient is always one of the two.
\<close>

definition double_quotient :: "double \<Rightarrow> double \<Rightarrow> double \<Rightarrow> double option" where
  "double_quotient v origin step =
     (case double_sub v origin of
        None \<Rightarrow> None
      | Some d \<Rightarrow> double_div d step)"

text \<open>
  \<^verbatim>\<open>static_cast<size_t>((v - origin) / step)\<close>. No \<^verbatim>\<open>size_t\<close> represents an infinity or a
  NaN, so the cast of one is undefined.
\<close>

definition pixel_index :: "double \<Rightarrow> double \<Rightarrow> double \<Rightarrow> error + size_t" where
  "pixel_index v origin step =
     (case double_quotient v origin step of
        None \<Rightarrow> Inl (Undefined CastOutOfRange)
      | Some q \<Rightarrow> double_to_size_t q)"

text \<open>
  \<^verbatim>\<open>load_tile_cache\<close>, first part (lines 153 to 184): the window of the tile, the bounds
  check and the read into a zeroed buffer of \<^verbatim>\<open>tile_size * tile_size\<close> bytes. The key's
  \<^verbatim>\<open>int\<close> components are converted to \<^verbatim>\<open>size_t\<close> for the product (sign extension), and the
  arithmetic wraps modulo \<open>2 ^ 64\<close>. The test \<^verbatim>\<open>x_offset < 0\<close> is kept as written; it is
  never true of an unsigned value. A failing allocation of the buffer is not modelled.
\<close>

definition read_tile :: "size_t \<Rightarrow> DatasetInfo \<Rightarrow> TileKey \<Rightarrow> error + tile" where
  "read_tile ts info tile_key =
     (let x_offset = scast (fst tile_key) * ts;
          y_offset = scast (snd tile_key) * ts;
          x_sz = min ts (x_size info - x_offset);
          y_sz = min ts (y_size info - y_offset);
          tile_data = replicate (unat (ts * ts)) (0 :: 8 word)
      in if x_offset \<ge> x_size info \<or> y_offset \<ge> y_size info \<or>
            x_offset + x_sz > x_size info \<or> y_offset + y_sz > y_size info \<or>
            x_offset < 0 \<or> y_offset < 0
         then Inl OutOfBounds
         else (case raster_io info x_offset y_offset x_sz y_sz tile_data ts ts of
                 None \<Rightarrow> Inl IOError
               | Some buffer \<Rightarrow> Inr buffer))"

text \<open>\<^verbatim>\<open>load_tile_cache\<close>: the read, then \<^verbatim>\<open>add_tile_to_cache\<close> (line 185).\<close>

definition load_tile_cache :: "size_t \<Rightarrow> TileKey \<Rightarrow> DatsetCache \<Rightarrow> error + DatsetCache" where
  "load_tile_cache ts tile_key dc =
     (case read_tile ts (dataset_info dc) tile_key of
        Inl e \<Rightarrow> Inl e
      | Inr tile_data \<Rightarrow>
          (case add_tile_to_cache tile_key tile_data (tile_cache dc) of
             Inl e \<Rightarrow> Inl e
           | Inr tc \<Rightarrow> Inr (dc\<lparr>tile_cache := tc\<rparr>)))"

text \<open>
  \<^verbatim>\<open>Dataset::is_water(double, double, DatsetCache &)\<close>, lines 131 to 137: the tile is
  loaded when the cache does not hold its key, then taken from the cache.
\<close>

definition cached_tile :: "size_t \<Rightarrow> TileKey \<Rightarrow> DatsetCache \<Rightarrow> error + tile \<times> DatsetCache" where
  "cached_tile ts tile_key dc =
     (case (if \<not> is_tile_in_cache tile_key (tile_cache dc)
            then load_tile_cache ts tile_key dc else Inr dc) of
        Inl e \<Rightarrow> Inl e
      | Inr dc1 \<Rightarrow>
          (let got = get_tile_from_cache tile_key (tile_cache dc1)
           in Inr (fst got, dc1\<lparr>tile_cache := snd got\<rparr>)))"

text \<open>
  \<^verbatim>\<open>Dataset::is_water(double, double, DatsetCache &)\<close>, lines 113 to 145. The tile
  indices are narrowed from \<^verbatim>\<open>size_t\<close> to \<^verbatim>\<open>int\<close> when the key is built.
\<close>

definition is_water_raster ::
  "size_t \<Rightarrow> double \<Rightarrow> double \<Rightarrow> DatsetCache \<Rightarrow> error + bool \<times> DatsetCache" where
  "is_water_raster ts lon lat dc =
     (case transform (dataset_info dc) (lon, lat) of
        None \<Rightarrow> Inl TransformError
      | Some (x, y) \<Rightarrow>
     (case pixel_index x (gt0 (geotransform (dataset_info dc)))
                         (gt1 (geotransform (dataset_info dc))) of
        Inl e \<Rightarrow> Inl e
      | Inr pixel_x \<Rightarrow>
     (case pixel_index y (gt3 (geotransform (dataset_info dc)))
                         (gt5 (geotransform (dataset_info dc))) of
        Inl e \<Rightarrow> Inl e
      | Inr pixel_y \<Rightarrow>
     (if ts = 0 then Inl (Undefined DivisionByZero)
      else
        (let tile_x = pixel_x div ts;
             tile_y = pixel_y div ts;
             tile_key = (ucast tile_x, ucast tile_y)
         in case cached_tile ts tile_key dc of
              Inl e \<Rightarrow> Inl e
            | Inr (tile_data, dc2) \<Rightarrow>
                (let local_x = pixel_x mod ts;
                     local_y = pixel_y mod ts;
                     ix = unat (local_y * ts + local_x)
                 in if ix < length tile_data
                    then Inr (tile_data ! ix = 1, dc2)
                    else Inl (Undefined IndexOutOfRange)))))))"

text \<open>
  \<^verbatim>\<open>Dataset::is_water(double, double, std::vector<DatsetCache> &)\<close>, lines 100 to 111:
  the rasters are visited in order; one whose box contains the point is asked, and only an
  answer of \<^verbatim>\<open>true\<close> ends the loop.
\<close>

fun is_water_point ::
  "size_t \<Rightarrow> double \<Rightarrow> double \<Rightarrow> DatsetCache list \<Rightarrow> error + bool \<times> DatsetCache list" where
  "is_water_point ts lon lat [] = Inr (False, [])"
| "is_water_point ts lon lat (item # rest) =
     (if contains (bbox (dataset_info item)) lon lat then
        (case is_water_raster ts lon lat item of
           Inl e \<Rightarrow> Inl e
         | Inr (w, item') \<Rightarrow>
             if w then Inr (True, item' # rest)
             else (case is_water_point ts lon lat rest of
                     Inl e \<Rightarrow> Inl e
                   | Inr (r, rest') \<Rightarrow> Inr (r, item' # rest')))
      else (case is_water_point ts lon lat rest of
              Inl e \<Rightarrow> Inl e
            | Inr (r, rest') \<Rightarrow> Inr (r, item # rest')))"

text \<open>What a query answers, without the caches it leaves behind.\<close>

definition outcome :: "error + bool \<times> 'c \<Rightarrow> error + bool" where
  "outcome r = (case r of Inl e \<Rightarrow> Inl e | Inr (w, c) \<Rightarrow> Inr w)"

text \<open>A worker's life: a run of point queries on the caches it allocated.\<close>

fun run_queries ::
  "size_t \<Rightarrow> (double \<times> double) list \<Rightarrow> DatsetCache list \<Rightarrow> error + DatsetCache list" where
  "run_queries ts [] caches = Inr caches"
| "run_queries ts ((lon, lat) # pts) caches =
     (case is_water_point ts lon lat caches of
        Inl e \<Rightarrow> Inl e
      | Inr (w, caches') \<Rightarrow> run_queries ts pts caches')"

text \<open>
  The same query with the cache taken out: what the code computes when every tile is read
  afresh. \<open>n\<close> is the capacity of the cache; with \<open>n = 0\<close> the first tile that is read
  cannot be stored.
\<close>

definition uncached_tile :: "size_t \<Rightarrow> size_t \<Rightarrow> DatasetInfo \<Rightarrow> TileKey \<Rightarrow> error + tile" where
  "uncached_tile ts n info tile_key =
     (case read_tile ts info tile_key of
        Inl e \<Rightarrow> Inl e
      | Inr tile_data \<Rightarrow>
          if n = 0 then Inl (Undefined BackOfEmptyList) else Inr tile_data)"

definition raster_verdict ::
  "size_t \<Rightarrow> size_t \<Rightarrow> double \<Rightarrow> double \<Rightarrow> DatasetInfo \<Rightarrow> error + bool" where
  "raster_verdict ts n lon lat info =
     (case transform info (lon, lat) of
        None \<Rightarrow> Inl TransformError
      | Some (x, y) \<Rightarrow>
     (case pixel_index x (gt0 (geotransform info)) (gt1 (geotransform info)) of
        Inl e \<Rightarrow> Inl e
      | Inr pixel_x \<Rightarrow>
     (case pixel_index y (gt3 (geotransform info)) (gt5 (geotransform info)) of
        Inl e \<Rightarrow> Inl e
      | Inr pixel_y \<Rightarrow>
     (if ts = 0 then Inl (Undefined DivisionByZero)
      else
        (case uncached_tile ts n info (ucast (pixel_x div ts), ucast (pixel_y div ts)) of
           Inl e \<Rightarrow> Inl e
         | Inr tile_data \<Rightarrow>
             (let ix = unat (pixel_y mod ts * ts + pixel_x mod ts)
              in if ix < length tile_data
                 then Inr (tile_data ! ix = 1)
                 else Inl (Undefined IndexOutOfRange)))))))"

fun point_verdict ::
  "size_t \<Rightarrow> size_t \<Rightarrow> double \<Rightarrow> double \<Rightarrow> DatasetInfo list \<Rightarrow> error + bool" where
  "point_verdict ts n lon lat [] = Inr False"
| "point_verdict ts n lon lat (info # rest) =
     (if contains (bbox info) lon lat then
        (case raster_verdict ts n lon lat info of
           Inl e \<Rightarrow> Inl e
         | Inr w \<Rightarrow> if w then Inr True else point_verdict ts n lon lat rest)
      else point_verdict ts n lon lat rest)"

text \<open>
  What a worker's cache for one raster satisfies at every moment: the invariant of the
  TileCache, and every stored tile is the tile a read of its key gives.
\<close>

definition coherent :: "size_t \<Rightarrow> DatsetCache \<Rightarrow> bool" where
  "coherent ts dc \<longleftrightarrow>
     cache_inv (tile_cache dc) \<and>
     (\<forall>key\<in>fmdom' (tile_map (tile_cache dc)).
        read_tile ts (dataset_info dc) key =
          Inr (the (fmlookup (tile_map (tile_cache dc)) key)))"

definition caches_of :: "size_t \<Rightarrow> Dataset \<Rightarrow> DatsetCache list \<Rightarrow> bool" where
  "caches_of ts ds caches \<longleftrightarrow>
     map dataset_info caches = base_datasets ds \<and>
     (\<forall>dc\<in>set caches. coherent ts dc \<and> max_tiles (tile_cache dc) = max_cache_size ds)"

section \<open>parallel\_for (parallel\_for.hpp)\<close>

text \<open>
  Indices and thread counts are \<^verbatim>\<open>size_t\<close> values. They are natural numbers here: the
  only arithmetic on them is \<^verbatim>\<open>start + shift\<close> and \<^verbatim>\<open>size / num_threads\<close>, and
  \<^verbatim>\<open>start + shift\<close> never exceeds \<^verbatim>\<open>size\<close>, so nothing wraps. The division is guarded in
  the model because the source divides without a test.

  A worker is a function of its index range and of the shared state, returning the
  exception it ended with, if any, and the state as it left it. The threads are run one
  after the other in launch order. Every worker of this program writes only the result
  slots of its own range and reads only caches of its own, so any other interleaving
  leaves the same state. When several workers fail, \<^verbatim>\<open>exception\<close> ends as the one whose
  \<^verbatim>\<open>catch\<close> ran last, which the schedule decides: \<open>later ix\<close> says whether the catch of
  thread \<open>ix\<close> runs after the catch that set the exception held so far. Every \<open>later\<close> is
  a schedule, and every failing thread is the survivor under one of them.
  \<^verbatim>\<open>std::thread::hardware_concurrency()\<close> is a parameter; the standard allows it to be 0.
\<close>

function launch_threads ::
  "(nat \<Rightarrow> nat \<Rightarrow> 's \<Rightarrow> error option \<times> 's) \<Rightarrow> (nat \<Rightarrow> bool) \<Rightarrow> nat \<Rightarrow> nat \<Rightarrow> nat \<Rightarrow>
   nat \<Rightarrow> nat \<Rightarrow> error option \<times> 's \<Rightarrow> error option \<times> 's" where
  "launch_threads worker later size' num_threads shift ix start (exception, st) =
     (if ix < num_threads then
        (let end' = (if ix = num_threads - 1 then size' else start + shift);
             r = worker start end' st;
             exception' =
               (case fst r of
                  Some e \<Rightarrow> if exception = None \<or> later ix then Some e else exception
                | None \<Rightarrow> exception)
         in launch_threads worker later size' num_threads shift (Suc ix) (start + shift)
              (exception', snd r))
      else (exception, st))"
  by pat_completeness auto
termination
  by (relation "measure (\<lambda>(worker, later, size', num_threads, shift, ix, start, r).
        num_threads - ix)") auto

declare launch_threads.simps [simp del]

definition parallel_for ::
  "(nat \<Rightarrow> nat \<Rightarrow> 's \<Rightarrow> error option \<times> 's) \<Rightarrow> nat \<Rightarrow> nat \<Rightarrow> nat \<Rightarrow> (nat \<Rightarrow> bool) \<Rightarrow> 's \<Rightarrow>
   error + 's" where
  "parallel_for worker size' num_threads hardware_concurrency later st =
     (if num_threads = 1 then
        (case worker 0 size' st of
           (Some e, st') \<Rightarrow> Inl e
         | (None, st') \<Rightarrow> Inr st')
      else
        (let num_threads1 = (if num_threads = 0 then hardware_concurrency else num_threads);
             num_threads2 = min num_threads1 size'
         in if num_threads2 = 0 then Inl (Undefined DivisionByZero)
            else
              (let shift = size' div num_threads2
               in case launch_threads worker later size' num_threads2 shift 0 0 (None, st) of
                    (Some e, st') \<Rightarrow> Inl e
                  | (None, st') \<Rightarrow> Inr st')))"

text \<open>
  The chunks \<^verbatim>\<open>parallel_for\<close> hands out, as \<open>(start, end)\<close> pairs in launch order: the
  bookkeeping of the launch loop without the workers.
\<close>

function chunks :: "nat \<Rightarrow> nat \<Rightarrow> nat \<Rightarrow> nat \<Rightarrow> nat \<Rightarrow> (nat \<times> nat) list" where
  "chunks size' num_threads shift ix start =
     (if ix < num_threads then
        (start, if ix = num_threads - 1 then size' else start + shift)
          # chunks size' num_threads shift (Suc ix) (start + shift)
      else [])"
  by pat_completeness auto
termination
  by (relation "measure (\<lambda>(size', num_threads, shift, ix, start). num_threads - ix)") auto

declare chunks.simps [simp del]

section \<open>The batch query (dataset.cpp, lines 82 to 98)\<close>

text \<open>
  The body of the \<^verbatim>\<open>worker\<close> lambda: the loop over \<^verbatim>\<open>[start, end)\<close> on caches allocated by
  this worker. An exception leaves the loop with the slots written so far.
\<close>

function worker_loop ::
  "Dataset \<Rightarrow> double list \<Rightarrow> double list \<Rightarrow> nat \<Rightarrow> nat \<Rightarrow> DatsetCache list \<Rightarrow> bool list \<Rightarrow>
   error option \<times> bool list" where
  "worker_loop ds lon lat ix end' cache result =
     (if ix < end' then
        (if ix < length lon \<and> ix < length lat \<and> ix < length result then
           (case is_water_point (tile_size ds) (lon ! ix) (lat ! ix) cache of
              Inl e \<Rightarrow> (Some e, result)
            | Inr (w, cache') \<Rightarrow>
                worker_loop ds lon lat (Suc ix) end' cache' (result[ix := w]))
         else (Some (Undefined IndexOutOfRange), result))
      else (None, result))"
  by pat_completeness auto
termination
  by (relation "measure (\<lambda>(ds, lon, lat, ix, end', cache, result). end' - ix)") auto

declare worker_loop.simps [simp del]

definition worker ::
  "Dataset \<Rightarrow> double list \<Rightarrow> double list \<Rightarrow> nat \<Rightarrow> nat \<Rightarrow> bool list \<Rightarrow> error option \<times> bool list" where
  "worker ds lon lat start end' result =
     worker_loop ds lon lat start end' (allocate_cache ds) result"

text \<open>\<^verbatim>\<open>VectorBool(n)\<close> followed by \<^verbatim>\<open>setZero()\<close>.\<close>

definition zero_result :: "nat \<Rightarrow> bool list" where
  "zero_result n = replicate n False"

definition is_water ::
  "Dataset \<Rightarrow> double list \<Rightarrow> double list \<Rightarrow> nat \<Rightarrow> nat \<Rightarrow> (nat \<Rightarrow> bool) \<Rightarrow>
   error + bool list" where
  "is_water ds lon lat num_threads hardware_concurrency later =
     (if length lon \<noteq> length lat then Inl SizeMismatch
      else parallel_for (worker ds lon lat) (length lon) num_threads hardware_concurrency
             later (zero_result (length lon)))"

text \<open>
  The answer for slot \<open>i\<close> of a batch, with the cache taken out, and what one worker does
  to the shared result on its range \<open>[s, e)\<close>: it keeps the length, leaves every slot
  outside the range alone and either fills every slot of the range with its answer or ends
  with the failure of one of them.
\<close>

definition slot_verdict :: "Dataset \<Rightarrow> double list \<Rightarrow> double list \<Rightarrow> nat \<Rightarrow> error + bool" where
  "slot_verdict ds lon lat i =
     point_verdict (tile_size ds) (max_cache_size ds) (lon ! i) (lat ! i) (base_datasets ds)"

definition chunk_ok ::
  "(nat \<Rightarrow> error + bool) \<Rightarrow> nat \<Rightarrow> nat \<Rightarrow> bool list \<Rightarrow> error option \<times> bool list \<Rightarrow> bool" where
  "chunk_ok V s e st r \<longleftrightarrow>
     length (snd r) = length st \<and>
     (\<forall>i<length st. \<not> (s \<le> i \<and> i < e) \<longrightarrow> snd r ! i = st ! i) \<and>
     (case fst r of
        None \<Rightarrow> (\<forall>i. s \<le> i \<and> i < e \<longrightarrow> V i = Inr (snd r ! i))
      | Some x \<Rightarrow> (\<exists>i. s \<le> i \<and> i < e \<and> V i = Inl x))"

section \<open>A small dataset\<close>

text \<open>
  Rasters of 2 by 2 pixels over the square from (0, 0) to (2, 2), geotransform
  (0, 1, 0, 2, 0, -1), identity reprojection. \<open>unit_bbox\<close> is the box the constructor
  gives for them. In \<open>flat_raster v\<close> every mask byte is \<open>v\<close>; in \<open>spot_raster\<close> the only
  byte equal to 1 is the one of pixel (0, 1), at offset 2 of the one tile.
\<close>

definition unit_geotransform :: geotransform_t where
  "unit_geotransform = \<lparr>gt0 = 0, gt1 = 1, gt2 = 0, gt3 = 2, gt4 = 0, gt5 = -1\<rparr>"

definition unit_bbox :: BBox where
  "unit_bbox = \<lparr>min_x = 0, max_x = 2, min_y = 0, max_y = 2\<rparr>"

definition flat_raster :: "8 word \<Rightarrow> DatasetInfo" where
  "flat_raster v =
     \<lparr>transform = Some,
      raster_io = (\<lambda>x_offset y_offset x_sz y_sz buffer buf_x buf_y.
                     Some (replicate (length buffer) v)),
      geotransform = unit_geotransform,
      bbox = unit_bbox,
      x_size = 2,
      y_size = 2\<rparr>"


definition two_rasters :: Dataset where
  "two_rasters = \<lparr>base_datasets = [flat_raster 0, flat_raster 1], tile_size = 2, max_cache_size = 4\<rparr>"

section \<open>Facts about double arithmetic\<close>

text \<open>Rounding leaves every binary64 value as it is.\<close>

lemma round_half_even_of_int: "round_half_even (of_int k) = k"
  by (simp add: round_half_even_def)

lemma nearest_double_exact:
  assumes r: "r = of_int m * 2 powi e" and m: "\<bar>m\<bar> < 2 ^ 53" and e: "- 1074 \<le> e"
  shows "nearest_double r = r"
proof (cases "r = 0")
  case True
  then show ?thesis by (simp add: nearest_double_def)
next
  case False
  define b where "b = \<lfloor>log 2 \<bar>r\<bar>\<rfloor>"
  define e' where "e' = max (b - 52) (- 1074)"
  from False have pos: "0 < \<bar>r\<bar>" by simp
  have "2 powr of_int b \<le> \<bar>r\<bar>"
    using floor_log_eq_powr_iff [OF pos, of 2 b] by (simp add: b_def)
  then have lo: "2 powi b \<le> \<bar>r\<bar>"
    by (simp add: powr_real_of_int')
  have "\<bar>r\<bar> = of_int \<bar>m\<bar> * 2 powi e"
    by (simp add: r abs_mult)
  moreover have "(of_int \<bar>m\<bar> :: real) < 2 ^ 53"
    using m by (metis of_int_less_iff of_int_numeral of_int_power)
  ultimately have "\<bar>r\<bar> < 2 ^ 53 * 2 powi e"
    by (simp add: mult_strict_right_mono)
  also have "\<dots> = 2 powi (53 + e)"
    by (simp add: power_int_add)
  finally have "2 powi b < (2 :: real) powi (53 + e)"
    using lo by simp
  then have "b < 53 + e"
    by (metis not_le power_int_increasing one_le_numeral)
  with e have le: "e' \<le> e" by (simp add: e'_def)
  then have "e - e' = int (nat (e - e'))" by simp
  then have "(2 :: real) powi (e - e') = 2 ^ nat (e - e')"
    by (metis power_int_of_nat)
  moreover have "r / 2 powi e' = of_int m * 2 powi (e - e')"
    by (simp add: r power_int_diff)
  ultimately have q: "r / 2 powi e' = of_int (m * 2 ^ nat (e - e'))"
    by simp
  have "of_int (round_half_even (r / 2 powi e')) * 2 powi e' = r"
    unfolding q round_half_even_of_int using q
    by (metis nonzero_divide_eq_eq power_int_eq_0_iff zero_neq_numeral)
  with False show ?thesis
    by (simp add: nearest_double_def Let_def b_def [symmetric] e'_def [symmetric])
qed

lemma to_double_exact:
  assumes "r = of_int m * 2 powi e" "\<bar>m\<bar> < 2 ^ 53" "- 1074 \<le> e" "\<bar>r\<bar> < 2 ^ 1024"
  shows "to_double r = Some r"
  using nearest_double_exact [OF assms(1-3)] assms(4) by (simp add: to_double_def)

lemma to_double_small_int: "\<bar>k\<bar> < 2 ^ 53 \<Longrightarrow> to_double (of_int k) = Some (of_int k)"
proof (rule to_double_exact [of _ k 0])
  assume k: "\<bar>k\<bar> < 2 ^ 53"
  then have "\<bar>of_int k :: real\<bar> < 2 ^ 53"
    by (metis of_int_abs of_int_less_iff of_int_numeral of_int_power)
  also have "(2 :: real) ^ 53 < 2 ^ 1024" by simp
  finally show "\<bar>of_int k :: real\<bar> < 2 ^ 1024" .
qed simp_all

lemma to_double_halves:
  "\<bar>k\<bar> < 2 ^ 53 \<Longrightarrow> to_double (of_int k / 2) = Some (of_int k / 2)"
proof (rule to_double_exact [of _ k "- 1"])
  assume k: "\<bar>k\<bar> < 2 ^ 53"
  then have "\<bar>of_int k :: real\<bar> < 2 ^ 53"
    by (metis of_int_abs of_int_less_iff of_int_numeral of_int_power)
  then have "\<bar>of_int k / 2 :: real\<bar> < 2 ^ 53" by simp
  also have "(2 :: real) ^ 53 < 2 ^ 1024" by simp
  finally show "\<bar>of_int k / 2 :: real\<bar> < 2 ^ 1024" .
qed simp_all

lemma to_double_values:
  "to_double 0 = Some 0" "to_double 1 = Some 1" "to_double 2 = Some 2"
  "to_double (- 2) = Some (- 2)" "to_double (1 / 2) = Some (1 / 2)"
  "to_double (3 / 2) = Some (3 / 2)" "to_double (5 / 2) = Some (5 / 2)"
  "to_double (- (1 / 2)) = Some (- (1 / 2))" "to_double (- (3 / 2)) = Some (- (3 / 2))"
  using to_double_small_int [of 0] to_double_small_int [of 1] to_double_small_int [of 2]
    to_double_small_int [of "- 2"] to_double_halves [of 1] to_double_halves [of 3]
    to_double_halves [of 5] to_double_halves [of "- 1"] to_double_halves [of "- 3"]
  by simp_all

lemma size_t_to_double_2: "size_t_to_double 2 = 2"
  using nearest_double_exact [of 2 2 0] by (simp add: size_t_to_double_def)

lemma new_BBox_unit: "new_BBox unit_geotransform 2 2 = Some unit_bbox"
  by (simp add: new_BBox_def unit_geotransform_def unit_bbox_def size_t_to_double_2
      double_mul_def double_add_def to_double_values)


lemma double_quotient_values:
  "double_quotient (1 / 2) 0 1 = Some (1 / 2)"
  "double_quotient (3 / 2) 0 1 = Some (3 / 2)"
  "double_quotient (5 / 2) 0 1 = Some (5 / 2)"
  "double_quotient (- 1 / 2) 0 1 = Some (- 1 / 2)"
  "double_quotient (- 3 / 2) 0 1 = Some (- 3 / 2)"
  "double_quotient (1 / 2) 2 (- 1) = Some (3 / 2)"
  "double_quotient (- (1 / 2)) 0 1 = Some (- (1 / 2))"
  "double_quotient (- (3 / 2)) 0 1 = Some (- (3 / 2))"
  by (simp_all add: double_quotient_def double_sub_def double_div_def to_double_values)

text \<open>
  A quotient that is rounded: \<^verbatim>\<open>1.0 / 0.1\<close>, where \<^verbatim>\<open>0.1\<close> is the double
  \<open>3602879701896397 / 2 ^ 55\<close>. The exact quotient is just below 10 and rounds to 10.
\<close>

lemma nearest_double_eval:
  assumes "2 powi b \<le> \<bar>r\<bar>" "\<bar>r\<bar> < 2 powi (b + 1)"
  shows "nearest_double r =
         of_int (round_half_even (r / 2 powi max (b - 52) (- 1074))) * 2 powi max (b - 52) (- 1074)"
proof -
  have "(0 :: real) < 2 powi b" by simp
  with assms(1) have pos: "0 < \<bar>r\<bar>" by linarith
  have a: "(2 :: real) powr real_of_int b = 2 powi b"
    by (simp add: powr_real_of_int')
  have c: "(2 :: real) powr real_of_int (b + 1) = 2 powi (b + 1)"
    by (rule powr_real_of_int') simp_all
  have "\<lfloor>log 2 \<bar>r\<bar>\<rfloor> = b"
  proof (subst floor_log_eq_powr_iff)
    show "0 < \<bar>r\<bar>" by (rule pos)
    show "(1 :: real) < 2" by simp
    show "2 powr real_of_int b \<le> \<bar>r\<bar> \<and> \<bar>r\<bar> < 2 powr real_of_int (b + 1)"
      unfolding a c using assms by simp
  qed
  with pos show ?thesis by (auto simp: nearest_double_def Let_def)
qed

lemma one_tenth_quotient:
  "double_quotient 1 0 (3602879701896397 / 36028797018963968) = Some 10"
proof -
  let ?r = "36028797018963968 / 3602879701896397 :: real"
  have "nearest_double ?r = of_int (round_half_even (?r / 2 powi max (3 - 52) (- 1074))) *
      2 powi max (3 - 52) (- 1074)"
    by (rule nearest_double_eval) simp_all
  also have "\<dots> = 10"
    by (simp add: round_half_even_def)
  finally have "nearest_double ?r = 10" .
  then have d: "to_double ?r = Some 10"
    by (simp add: to_double_def)
  show ?thesis
    by (simp add: double_quotient_def double_sub_def double_div_def to_double_values d)
qed


section \<open>Facts about the finite map and the recency list\<close>

lemma map_size_card: "map_size m = card (fmdom' m)"
  by (simp add: map_size_def fcard.rep_eq fmdom'_alt_def)

lemma map_size_empty: "map_size fmempty = 0"
  by (simp add: map_size_card)

lemma finite_fmdom': "finite (fmdom' m)"
  by (simp add: fmdom'_alt_def)

lemma map_size_fmupd:
  "map_size (fmupd k v m) = (if k \<in> fmdom' m then map_size m else Suc (map_size m))"
  by (simp add: map_size_card finite_fmdom' insert_absorb)

lemma fmdom'_fmdrop: "fmdom' (fmdrop k m) = fmdom' m - {k}"
  by (auto simp: fmlookup_dom'_iff)

lemma map_size_fmdrop:
  "map_size (fmdrop k m) = (if k \<in> fmdom' m then map_size m - 1 else map_size m)"
  by (simp add: map_size_card fmdom'_fmdrop finite_fmdom')

lemma is_tile_in_cache_dom: "is_tile_in_cache key c \<longleftrightarrow> key \<in> fmdom' (tile_map c)"
  by (auto simp: is_tile_in_cache_def fmlookup_dom'_iff)

lemma set_butlast_last: "xs \<noteq> [] \<Longrightarrow> set xs = insert (last xs) (set (butlast xs))"
proof -
  assume "xs \<noteq> []"
  then have "xs = butlast xs @ [last xs]" by simp
  then have "set xs = set (butlast xs @ [last xs])" by simp
  then show ?thesis by simp
qed

lemma get_present:
  "fmlookup (tile_map c) key = Some t \<Longrightarrow>
   get_tile_from_cache key c = (t, c\<lparr>access_order := key # removeAll key (access_order c)\<rparr>)"
  by (simp add: get_tile_from_cache_def)

lemma get_absent:
  "fmlookup (tile_map c) key = None \<Longrightarrow>
   get_tile_from_cache key c =
     ([], c\<lparr>access_order := key # removeAll key (access_order c),
            tile_map := fmupd key [] (tile_map c)\<rparr>)"
  by (simp add: get_tile_from_cache_def)

lemma add_not_full:
  "map_size (tile_map c) < unat (max_tiles c) \<Longrightarrow>
   add_tile_to_cache key t c =
     Inr (c\<lparr>tile_map := fmupd key t (tile_map c), access_order := key # access_order c\<rparr>)"
  by (simp add: add_tile_to_cache_def evict_if_full_def)

lemma add_full:
  "unat (max_tiles c) \<le> map_size (tile_map c) \<Longrightarrow> access_order c \<noteq> [] \<Longrightarrow>
   add_tile_to_cache key t c =
     Inr (c\<lparr>tile_map := fmupd key t (fmdrop (last (access_order c)) (tile_map c)),
            access_order := key # butlast (access_order c)\<rparr>)"
  by (simp add: add_tile_to_cache_def evict_if_full_def split: list.splits)

lemma add_undefined:
  "unat (max_tiles c) \<le> map_size (tile_map c) \<Longrightarrow> access_order c = [] \<Longrightarrow>
   add_tile_to_cache key t c = Inl (Undefined BackOfEmptyList)"
  by (simp add: add_tile_to_cache_def evict_if_full_def)

lemma add_cases:
  obtains
    (not_full) "map_size (tile_map c) < unat (max_tiles c)"
  | (full) "unat (max_tiles c) \<le> map_size (tile_map c)" "access_order c \<noteq> []"
  | (undefined) "unat (max_tiles c) \<le> map_size (tile_map c)" "access_order c = []"
  by (cases "map_size (tile_map c) < unat (max_tiles c)"; cases "access_order c = []") auto

lemma keys_listed_new: "keys_listed (new_TileCache n)"
  by (simp add: keys_listed_def new_TileCache_def)

lemma keys_listed_get: "keys_listed c \<Longrightarrow> keys_listed (snd (get_tile_from_cache key c))"
  by (cases "fmlookup (tile_map c) key") (auto simp: keys_listed_def get_present get_absent)

lemma keys_listed_add:
  assumes "keys_listed c" "add_tile_to_cache key t c = Inr c'"
  shows "keys_listed c'"
proof (cases c rule: add_cases)
  case not_full
  with assms show ?thesis by (auto simp: add_not_full keys_listed_def)
next
  case full
  with assms show ?thesis
    using set_butlast_last [of "access_order c"]
    by (auto simp: add_full keys_listed_def fmdom'_fmdrop)
next
  case undefined
  with assms show ?thesis by (simp add: add_undefined)
qed

lemma keys_listed_op:
  "keys_listed c \<Longrightarrow> apply_cache_op x c = Inr c' \<Longrightarrow> keys_listed c'"
  by (cases x) (auto simp: keys_listed_get keys_listed_add)

lemma keys_listed_run:
  "keys_listed c \<Longrightarrow> run_cache_ops xs c = Inr c' \<Longrightarrow> keys_listed c'"
proof (induction xs arbitrary: c)
  case Nil
  then show ?case by simp
next
  case (Cons x xs)
  then show ?case
    by (auto split: sum.splits dest: keys_listed_op)
qed

lemma max_tiles_get: "max_tiles (snd (get_tile_from_cache key c)) = max_tiles c"
  by (cases "fmlookup (tile_map c) key") (simp_all add: get_present get_absent)

lemma max_tiles_add: "add_tile_to_cache key t c = Inr c' \<Longrightarrow> max_tiles c' = max_tiles c"
  by (cases c rule: add_cases) (auto simp: add_not_full add_full add_undefined)

lemma max_tiles_op: "apply_cache_op x c = Inr c' \<Longrightarrow> max_tiles c' = max_tiles c"
  by (cases x) (auto simp: max_tiles_get max_tiles_add)

lemma add_undefined_iff:
  assumes "keys_listed c"
  shows "add_tile_to_cache key t c = Inl (Undefined BackOfEmptyList) \<longleftrightarrow>
         max_tiles c = 0 \<and> access_order c = []"
proof (cases c rule: add_cases)
  case not_full
  then have "max_tiles c \<noteq> 0" by (auto simp: unat_eq_0)
  with not_full show ?thesis by (simp add: add_not_full)
next
  case full
  then show ?thesis by (simp add: add_full)
next
  case undefined
  with assms have "fmdom' (tile_map c) = {}" by (simp add: keys_listed_def)
  then have "map_size (tile_map c) = 0" by (simp add: map_size_card)
  with undefined show ?thesis by (simp add: add_undefined unat_eq_0)
qed

lemma add_result: "(\<exists>c'. add_tile_to_cache key t c = Inr c') \<or>
  add_tile_to_cache key t c = Inl (Undefined BackOfEmptyList)"
  by (cases c rule: add_cases) (auto simp: add_not_full add_full add_undefined)


lemma add_lookup_same:
  "add_tile_to_cache key t c = Inr c' \<Longrightarrow> fmlookup (tile_map c') key = Some t"
  by (cases c rule: add_cases) (auto simp: add_not_full add_full add_undefined)

lemma add_lookup_other:
  "add_tile_to_cache key t c = Inr c' \<Longrightarrow> k \<noteq> key \<Longrightarrow> k \<in> fmdom' (tile_map c') \<Longrightarrow>
   fmlookup (tile_map c') k = fmlookup (tile_map c) k"
  by (cases c rule: add_cases)
     (auto simp: add_not_full add_full add_undefined fmdom'_fmdrop)

section \<open>TileCache: get, put and the empty back\<close>

text \<open>
  C2, as the spec states it: \<^verbatim>\<open>get(key)\<close> fails with NotFound when the key is absent. It
  does not hold: on the empty cache \<^verbatim>\<open>get_tile_from_cache\<close> returns an empty tile and
  leaves the key in the map and in the recency list.
\<close>

theorem get_absent_counterexample:
  "\<not> is_tile_in_cache (0, 0) (new_TileCache 1) \<and>
   get_tile_from_cache (0, 0) (new_TileCache 1) =
     ([], \<lparr>max_tiles = 1, tile_map = fmupd (0, 0) [] fmempty, access_order = [(0, 0)]\<rparr>)"
  by (simp add: is_tile_in_cache_def get_tile_from_cache_def new_TileCache_def)

text \<open>
  C2, amended: \<^verbatim>\<open>get(key)\<close> never fails. For a key the cache holds it returns the stored
  tile and moves the key to the front of the recency list, leaving the map and the capacity
  as they were. For a key the cache does not hold it returns an empty tile, stores that
  empty tile under the key and puts the key at the front.
\<close>

theorem get_tile_from_cache_spec:
  "(is_tile_in_cache key c \<longrightarrow>
      fmlookup (tile_map c) key = Some (fst (get_tile_from_cache key c)) \<and>
      snd (get_tile_from_cache key c) =
        c\<lparr>access_order := key # removeAll key (access_order c)\<rparr>) \<and>
   (\<not> is_tile_in_cache key c \<longrightarrow>
      fst (get_tile_from_cache key c) = [] \<and>
      snd (get_tile_from_cache key c) =
        c\<lparr>access_order := key # removeAll key (access_order c),
          tile_map := fmupd key [] (tile_map c)\<rparr>)"
  by (auto simp: is_tile_in_cache_def get_tile_from_cache_def)

theorem get_tile_from_cache_spec_witness:
  "is_tile_in_cache (0, 0)
     \<lparr>max_tiles = 2, tile_map = fmupd (1, 0) [1] (fmupd (0, 0) [7] fmempty),
      access_order = [(1, 0), (0, 0)]\<rparr> \<and>
   get_tile_from_cache (0, 0)
     \<lparr>max_tiles = 2, tile_map = fmupd (1, 0) [1] (fmupd (0, 0) [7] fmempty),
      access_order = [(1, 0), (0, 0)]\<rparr> =
     ([7], \<lparr>max_tiles = 2, tile_map = fmupd (1, 0) [1] (fmupd (0, 0) [7] fmempty),
            access_order = [(0, 0), (1, 0)]\<rparr>) \<and>
   \<not> is_tile_in_cache (5, 5) (new_TileCache 2) \<and>
   fst (get_tile_from_cache (5, 5) (new_TileCache 2)) = []"
  using get_tile_from_cache_spec [of "(0, 0)"
      "\<lparr>max_tiles = 2, tile_map = fmupd (1, 0) [1] (fmupd (0, 0) [7] fmempty),
        access_order = [(1, 0), (0, 0)]\<rparr>"]
    get_tile_from_cache_spec [of "(5, 5)" "new_TileCache 2"]
  by (simp add: is_tile_in_cache_def new_TileCache_def prod_eq_iff)

text \<open>
  C3, as the spec states it: when the key is already present \<^verbatim>\<open>put\<close> overwrites without
  evicting any entry. It does not hold: with capacity 2 and the keys (0, 0) and (1, 0)
  stored, putting (1, 0) again erases (0, 0) and leaves (1, 0) twice in the recency list.
\<close>

theorem put_present_evicts_counterexample:
  "run_cache_ops [Put (0, 0) [], Put (1, 0) []] (new_TileCache 2) =
     Inr \<lparr>max_tiles = 2, tile_map = fmupd (1, 0) [] (fmupd (0, 0) [] fmempty),
          access_order = [(1, 0), (0, 0)]\<rparr> \<and>
   add_tile_to_cache (1, 0) [1]
     \<lparr>max_tiles = 2, tile_map = fmupd (1, 0) [] (fmupd (0, 0) [] fmempty),
      access_order = [(1, 0), (0, 0)]\<rparr> =
     Inr \<lparr>max_tiles = 2, tile_map = fmupd (1, 0) [1] fmempty,
          access_order = [(1, 0), (1, 0)]\<rparr>"
  by (simp add: add_tile_to_cache_def evict_if_full_def new_TileCache_def map_size_fmupd
      map_size_empty fmdrop_fmupd)

text \<open>
  C3, amended: \<^verbatim>\<open>put(key, tile)\<close> evicts the entry at the back of the recency list before
  inserting whenever the map already holds \<^verbatim>\<open>max_tiles\<close> entries or more, whether the key is
  present or not (the back of the list must exist); when the map holds fewer entries it
  inserts or overwrites without evicting; in every case that returns, the tile is stored
  under the key and the key is at the front of the recency order.
\<close>

theorem add_tile_to_cache_spec:
  "(map_size (tile_map c) < unat (max_tiles c) \<longrightarrow>
      add_tile_to_cache key tile_data c =
        Inr (c\<lparr>tile_map := fmupd key tile_data (tile_map c),
               access_order := key # access_order c\<rparr>)) \<and>
   (unat (max_tiles c) \<le> map_size (tile_map c) \<and> access_order c \<noteq> [] \<longrightarrow>
      add_tile_to_cache key tile_data c =
        Inr (c\<lparr>tile_map := fmupd key tile_data (fmdrop (last (access_order c)) (tile_map c)),
               access_order := key # butlast (access_order c)\<rparr>)) \<and>
   (\<forall>c'. add_tile_to_cache key tile_data c = Inr c' \<longrightarrow>
      hd (access_order c') = key \<and> fmlookup (tile_map c') key = Some tile_data)"
  by (auto simp: add_tile_to_cache_def evict_if_full_def split: list.splits sum.splits if_splits)

theorem add_tile_to_cache_spec_witness:
  "map_size (tile_map (new_TileCache 1)) < unat (max_tiles (new_TileCache 1)) \<and>
   add_tile_to_cache (0, 0) [1] (new_TileCache 1) =
     Inr \<lparr>max_tiles = 1, tile_map = fmupd (0, 0) [1] fmempty, access_order = [(0, 0)]\<rparr> \<and>
   unat (1 :: size_t) \<le> map_size (fmupd (0, 0) [1] fmempty) \<and>
   add_tile_to_cache (1, 0) [2]
     \<lparr>max_tiles = 1, tile_map = fmupd (0, 0) [1] fmempty, access_order = [(0, 0)]\<rparr> =
     Inr \<lparr>max_tiles = 1, tile_map = fmupd (1, 0) [2] (fmdrop (0, 0) (fmupd (0, 0) [1] fmempty)),
          access_order = [(1, 0)]\<rparr>"
  using add_tile_to_cache_spec [of "new_TileCache 1" "(0, 0)" "[1]"]
    add_tile_to_cache_spec [of
      "\<lparr>max_tiles = 1, tile_map = fmupd (0, 0) [1] fmempty, access_order = [(0, 0)]\<rparr>"
      "(1, 0)" "[2]"]
  by (simp add: new_TileCache_def map_size_fmupd map_size_empty)

text \<open>
  C10: \<^verbatim>\<open>put\<close> on a cache built with capacity 0 takes the eviction branch while the recency
  list is empty and reads its back. For every cache state \<open>c\<close> that calls of the three
  members can produce from a new cache, \<^verbatim>\<open>put\<close> reads the back of an empty list exactly
  when the capacity is 0 and the cache is empty; it returns exactly when the capacity is at
  least 1 or the cache is not empty.
\<close>

theorem add_tile_to_cache_safety:
  assumes "run_cache_ops ops (new_TileCache n) = Inr c"
  shows "add_tile_to_cache key t (new_TileCache 0) = Inl (Undefined BackOfEmptyList) \<and>
         (add_tile_to_cache key t c = Inl (Undefined BackOfEmptyList) \<longleftrightarrow>
            max_tiles c = 0 \<and> access_order c = []) \<and>
         ((\<exists>c'. add_tile_to_cache key t c = Inr c') \<longleftrightarrow>
            0 < max_tiles c \<or> access_order c \<noteq> [])"
proof -
  have k: "keys_listed c"
    using keys_listed_run [OF keys_listed_new assms] .
  have a: "add_tile_to_cache key t (new_TileCache 0) = Inl (Undefined BackOfEmptyList)"
    by (simp add: add_undefined new_TileCache_def map_size_empty)
  have b: "add_tile_to_cache key t c = Inl (Undefined BackOfEmptyList) \<longleftrightarrow>
            max_tiles c = 0 \<and> access_order c = []"
    using k by (rule add_undefined_iff)
  have c: "(\<exists>c'. add_tile_to_cache key t c = Inr c') \<longleftrightarrow> 0 < max_tiles c \<or> access_order c \<noteq> []"
    using b add_result [of key t c] by (auto simp: word_greater_zero_iff)
  from a b c show ?thesis by blast
qed

theorem add_tile_to_cache_safety_witness:
  "run_cache_ops [Put (0,0) [], Get (0,0)] (new_TileCache 1) =
     Inr \<lparr>max_tiles = 1, tile_map = fmupd (0,0) [] fmempty, access_order = [(0,0)]\<rparr> \<and>
   (\<exists>c'. add_tile_to_cache (1,0) [] \<lparr>max_tiles = 1, tile_map = fmupd (0,0) [] fmempty, access_order = [(0,0)]\<rparr> = Inr c')"
proof -
  have r: "run_cache_ops [Put (0,0) [], Get (0,0)] (new_TileCache 1) =
     Inr \<lparr>max_tiles = 1, tile_map = fmupd (0,0) [] fmempty, access_order = [(0,0)]\<rparr>"
    by (simp add: add_not_full new_TileCache_def map_size_empty get_present)
  show ?thesis
    using r add_tile_to_cache_safety [OF r, of "(1,0)" "[]"] by simp
qed


section \<open>TileCache: the invariant and the recency order\<close>

lemma cache_inv_size: "cache_inv c \<Longrightarrow> map_size (tile_map c) = length (access_order c)"
  by (simp add: cache_inv_def map_size_card distinct_card [symmetric])

lemma cache_inv_new: "cache_inv (new_TileCache n)"
  by (simp add: cache_inv_def new_TileCache_def map_size_empty)

lemma cache_invI:
  "map_size (tile_map c) \<le> unat (max_tiles c) \<Longrightarrow> distinct (access_order c) \<Longrightarrow>
   set (access_order c) = fmdom' (tile_map c) \<Longrightarrow> cache_inv c"
  by (simp add: cache_inv_def)

lemma cache_inv_get:
  assumes "cache_inv c" "is_tile_in_cache key c"
  shows "cache_inv (snd (get_tile_from_cache key c))"
proof -
  from assms(2) obtain t where t: "fmlookup (tile_map c) key = Some t"
    by (auto simp: is_tile_in_cache_def)
  let ?xs = "access_order c"
  from assms have k: "key \<in> set ?xs"
    by (simp add: cache_inv_def is_tile_in_cache_dom)
  have 1: "map_size (tile_map c) \<le> unat (max_tiles c)"
    and 2: "distinct ?xs" and 3: "set ?xs = fmdom' (tile_map c)"
    using assms(1) by (simp_all add: cache_inv_def)
  let ?c' = "c\<lparr>access_order := key # removeAll key ?xs\<rparr>"
  have g: "snd (get_tile_from_cache key c) = ?c'"
    by (simp add: get_present [OF t])
  have a: "map_size (tile_map ?c') \<le> unat (max_tiles ?c')"
    using 1 by simp
  have b: "distinct (access_order ?c')"
    using 2 by (simp add: distinct_removeAll)
  have "insert key (set ?xs - {key}) = set ?xs"
    using k by blast
  then have c: "set (access_order ?c') = fmdom' (tile_map ?c')"
    using 3 by simp
  show ?thesis
    unfolding g using a b c by (rule cache_invI)
qed


lemma cache_inv_add:
  assumes "cache_inv c" "\<not> is_tile_in_cache key c" "add_tile_to_cache key t c = Inr c'"
  shows "cache_inv c'"
proof -
  let ?xs = "access_order c"
  let ?m = "tile_map c"
  have 1: "map_size ?m \<le> unat (max_tiles c)"
    and 2: "distinct ?xs" and 3: "set ?xs = fmdom' ?m"
    using assms(1) by (simp_all add: cache_inv_def)
  have k: "key \<notin> fmdom' ?m"
    using assms(2) by (simp add: is_tile_in_cache_dom)
  show ?thesis
  proof (cases c rule: add_cases)
    case not_full
    have c': "c' = c\<lparr>tile_map := fmupd key t ?m, access_order := key # ?xs\<rparr>"
      using assms(3) not_full by (simp add: add_not_full)
    have a: "map_size (tile_map c') \<le> unat (max_tiles c')"
      using not_full k by (simp add: c' map_size_fmupd)
    have b: "distinct (access_order c')"
      using 2 3 k by (simp add: c')
    have c: "set (access_order c') = fmdom' (tile_map c')"
      using 3 by (simp add: c')
    from a b c show ?thesis by (rule cache_invI)
  next
    case full
    have s: "set ?xs = insert (last ?xs) (set (butlast ?xs))"
      using full(2) by (rule set_butlast_last)
    have "distinct (butlast ?xs @ [last ?xs])"
      using 2 full(2) by simp
    then have d: "distinct (butlast ?xs)" "last ?xs \<notin> set (butlast ?xs)"
      by simp_all
    have l: "last ?xs \<in> fmdom' ?m"
      using 3 s by blast
    have e: "set (butlast ?xs) = fmdom' ?m - {last ?xs}"
      using 3 s d(2) by blast
    have m: "0 < map_size ?m"
      using assms(1) full(2) by (simp add: cache_inv_size)
    have c': "c' = c\<lparr>tile_map := fmupd key t (fmdrop (last ?xs) ?m),
                     access_order := key # butlast ?xs\<rparr>"
      using assms(3) full by (simp add: add_full)
    have a: "map_size (tile_map c') \<le> unat (max_tiles c')"
      using 1 k l m by (simp add: c' map_size_fmupd map_size_fmdrop fmdom'_fmdrop)
    have "key \<notin> set (butlast ?xs)"
      using k e by blast
    then have b: "distinct (access_order c')"
      using d(1) by (simp add: c')
    have c: "set (access_order c') = fmdom' (tile_map c')"
      using e by (simp add: c' fmdom'_fmdrop)
    from a b c show ?thesis by (rule cache_invI)
  next
    case undefined
    with assms(3) show ?thesis by (simp add: add_undefined)
  qed
qed

lemma add_succeeds:
  assumes "cache_inv c" "0 < max_tiles c"
  shows "\<exists>c'. add_tile_to_cache key t c = Inr c'"
proof (cases c rule: add_cases)
  case not_full
  then show ?thesis by (simp add: add_not_full)
next
  case full
  then show ?thesis by (simp add: add_full)
next
  case undefined
  with assms(1) have "unat (max_tiles c) = 0"
    by (simp add: cache_inv_size)
  with assms(2) show ?thesis by (simp add: unat_eq_0)
qed

lemma disciplined_run:
  "cache_inv c \<Longrightarrow> 0 < max_tiles c \<Longrightarrow> disciplined xs c \<Longrightarrow>
   \<exists>c'. run_cache_ops xs c = Inr c' \<and> cache_inv c'"
proof (induction xs arbitrary: c)
  case Nil
  then show ?case by simp
next
  case (Cons x xs)
  from Cons.prems have a: "op_allowed x c" by simp
  have "\<exists>c1. apply_cache_op x c = Inr c1"
  proof (cases x)
    case (Put key t)
    with add_succeeds [OF Cons.prems(1,2), of key t] show ?thesis by simp
  qed simp_all
  then obtain c1 where c1: "apply_cache_op x c = Inr c1" ..
  have i: "cache_inv c1"
    using a c1 Cons.prems(1) by (cases x) (auto simp: cache_inv_get cache_inv_add)
  have m: "0 < max_tiles c1"
    using max_tiles_op [OF c1] Cons.prems(2) by simp
  have d: "disciplined xs c1"
    using Cons.prems(3) c1 by simp
  from Cons.IH [OF i m d] c1 show ?case by simp
qed

lemma remdups_snoc: "remdups (hs @ [k]) = removeAll k (remdups hs) @ [k]"
  by (induction hs) auto

lemma rev_remdups_snoc: "rev (remdups (hs @ [k])) = k # removeAll k (rev (remdups hs))"
  by (simp add: remdups_snoc removeAll_filter_not_eq rev_filter)

lemma removeAll_take_present:
  "distinct R \<Longrightarrow> k \<in> set (take m R) \<Longrightarrow> removeAll k (take m R) = take (m - 1) (removeAll k R)"
proof (induction R arbitrary: m)
  case Nil
  then show ?case by simp
next
  case (Cons r R)
  then obtain m' where m: "m = Suc m'" by (cases m) auto
  show ?case
  proof (cases "r = k")
    case True
    with Cons.prems have "k \<notin> set (take m' R)"
      by (auto dest: in_set_takeD)
    with True Cons.prems(1) show ?thesis
      by (simp add: m)
  next
    case False
    with Cons.prems have k: "k \<in> set (take m' R)" by (simp add: m)
    then obtain m'' where m': "m' = Suc m''" by (cases m') auto
    from Cons.IH [OF _ k] Cons.prems(1) False show ?thesis
      by (simp add: m m')
  qed
qed

lemma take_removeAll_absent:
  "k \<notin> set (take m R) \<Longrightarrow> n \<le> m \<Longrightarrow> take n (removeAll k R) = take n R"
proof (induction R arbitrary: m n)
  case Nil
  then show ?case by simp
next
  case (Cons r R)
  show ?case
  proof (cases n)
    case 0
    then show ?thesis by simp
  next
    case (Suc n')
    with Cons.prems obtain m' where m: "m = Suc m'" by (cases m) auto
    with Cons.prems Suc have "r \<noteq> k" "k \<notin> set (take m' R)" "n' \<le> m'" by auto
    with Cons.IH [of m' n'] show ?thesis by (simp add: Suc)
  qed
qed


lemma access_tile_order:
  assumes inv: "cache_inv c" and pos: "0 < max_tiles c"
    and ord: "access_order c = take (unat (max_tiles c)) R" and dist: "distinct R"
  shows "\<exists>t c'. access_tile key tile_data c = Inr (t, c') \<and> cache_inv c' \<and>
           max_tiles c' = max_tiles c \<and>
           access_order c' = take (unat (max_tiles c)) (key # removeAll key R)"
proof -
  let ?m = "unat (max_tiles c)"
  from pos have m: "0 < ?m" by (simp add: unat_gt_0 word_greater_zero_iff)
  then obtain m' where m': "?m = Suc m'" by (cases ?m) auto
  show ?thesis
  proof (cases "is_tile_in_cache key c")
    case True
    then obtain t where t: "fmlookup (tile_map c) key = Some t"
      by (auto simp: is_tile_in_cache_def)
    from True inv ord have k: "key \<in> set (take ?m R)"
      by (simp add: cache_inv_def is_tile_in_cache_dom)
    have "access_order (snd (get_tile_from_cache key c)) = take ?m (key # removeAll key R)"
      using removeAll_take_present [OF dist k] by (simp add: get_present [OF t] ord m')
    moreover have "cache_inv (snd (get_tile_from_cache key c))"
      using inv True by (rule cache_inv_get)
    ultimately show ?thesis
      using True
      by (intro exI [of _ "fst (get_tile_from_cache key c)"]
            exI [of _ "snd (get_tile_from_cache key c)"])
         (simp add: access_tile_def max_tiles_get)
  next
    case False
    from add_succeeds [OF inv pos] obtain c1 where c1: "add_tile_to_cache key tile_data c = Inr c1"
      by blast
    have i1: "cache_inv c1" using inv False c1 by (rule cache_inv_add)
    have m1: "max_tiles c1 = max_tiles c" using c1 by (rule max_tiles_add)
    from False inv ord have k: "key \<notin> set (take ?m R)"
      by (simp add: cache_inv_def is_tile_in_cache_dom)
    have tk: "take m' (removeAll key R) = take m' R"
      using take_removeAll_absent [OF k, of m'] by (simp add: m')
    have o1: "access_order c1 = key # take m' R"
    proof (cases c rule: add_cases)
      case not_full
      then have "length (take ?m R) < ?m"
        using inv ord by (simp add: cache_inv_size)
      then have "length R \<le> m'" by (simp add: m')
      then have "take ?m R = take m' R" by (simp add: m')
      with c1 not_full show ?thesis by (auto simp: add_not_full ord)
    next
      case full
      then have "?m \<le> length (take ?m R)"
        using inv ord by (simp add: cache_inv_size)
      then have "?m \<le> length R" by simp
      then have "butlast (take ?m R) = take m' R"
        by (simp add: butlast_take m')
      with c1 full show ?thesis by (auto simp: add_full ord)
    next
      case undefined
      with c1 show ?thesis by (simp add: add_undefined)
    qed
    have in1: "is_tile_in_cache key c1"
      using i1 o1 by (auto simp: is_tile_in_cache_dom cache_inv_def)
    have k1: "key \<notin> set (take m' R)"
      using i1 o1 by (simp add: cache_inv_def)
    have "access_order (snd (get_tile_from_cache key c1)) = take ?m (key # removeAll key R)"
      using in1 k1 by (auto simp: is_tile_in_cache_def get_present o1 m' tk)
    moreover have "cache_inv (snd (get_tile_from_cache key c1))"
      using i1 in1 by (rule cache_inv_get)
    ultimately show ?thesis
      using False c1 m1
      by (intro exI [of _ "fst (get_tile_from_cache key c1)"]
            exI [of _ "snd (get_tile_from_cache key c1)"])
         (simp add: access_tile_def max_tiles_get)
  qed
qed

lemma run_accesses_order:
  "cache_inv c \<Longrightarrow> 0 < max_tiles c \<Longrightarrow>
   access_order c = take (unat (max_tiles c)) (rev (remdups hs)) \<Longrightarrow>
   \<exists>c'. run_accesses kts c = Inr c' \<and> cache_inv c' \<and> max_tiles c' = max_tiles c \<and>
        access_order c' = take (unat (max_tiles c)) (rev (remdups (hs @ map fst kts)))"
proof (induction kts arbitrary: c hs)
  case Nil
  then show ?case by simp
next
  case (Cons kt kts)
  obtain key tile_data where kt: "kt = (key, tile_data)" by (cases kt)
  have "distinct (rev (remdups hs))" by simp
  from access_tile_order [OF Cons.prems(1,2,3) this, of key tile_data]
  obtain t c1 where c1: "access_tile key tile_data c = Inr (t, c1)" "cache_inv c1"
      "max_tiles c1 = max_tiles c"
      "access_order c1 = take (unat (max_tiles c)) (rev (remdups (hs @ [key])))"
    by (auto simp: rev_remdups_snoc)
  from Cons.IH [of c1 "hs @ [key]"] c1 Cons.prems(2)
  show ?case by (simp add: kt)
qed


text \<open>
  C4, as the spec states it: after every sequence of \<^verbatim>\<open>contains\<close>, \<^verbatim>\<open>get\<close> and \<^verbatim>\<open>put\<close> from an
  empty cache of capacity at least 1 the map holds at most \<^verbatim>\<open>max_tiles\<close> entries and the
  recency list is a permutation of its keys. It does not hold: with capacity 1, a \<^verbatim>\<open>put\<close>
  followed by a \<^verbatim>\<open>get\<close> of another key leaves two entries in the map.
\<close>

theorem cache_invariant_counterexample:
  "run_cache_ops [Put (0, 0) [], Get (1, 0)] (new_TileCache 1) =
     Inr \<lparr>max_tiles = 1, tile_map = fmupd (1, 0) [] (fmupd (0, 0) [] fmempty),
          access_order = [(1, 0), (0, 0)]\<rparr> \<and>
   \<not> cache_inv \<lparr>max_tiles = 1, tile_map = fmupd (1, 0) [] (fmupd (0, 0) [] fmempty),
                 access_order = [(1, 0), (0, 0)]\<rparr>"
  by (simp add: add_not_full new_TileCache_def map_size_empty get_absent cache_inv_def
      map_size_fmupd)

text \<open>
  C4, amended: for every sequence of TileCache operations from an empty cache of capacity
  \<^verbatim>\<open>max_tiles\<close> at least 1 in which \<^verbatim>\<open>get\<close> is applied only to keys the cache holds and
  \<^verbatim>\<open>put\<close> only to keys it does not hold, every operation returns, the map never holds more
  than \<^verbatim>\<open>max_tiles\<close> entries and the recency list is a permutation of the map's keys. After
  any run of accesses made the way \<^verbatim>\<open>Dataset::is_water\<close> makes them (test, \<^verbatim>\<open>put\<close> when
  missing, \<^verbatim>\<open>get\<close>) the recency list is the \<^verbatim>\<open>max_tiles\<close> most recently accessed distinct
  keys, most recent first; in particular, after more than \<^verbatim>\<open>max_tiles\<close> distinct keys the
  cache holds exactly the \<^verbatim>\<open>max_tiles\<close> most recently accessed ones.
\<close>

theorem cache_invariant_disciplined:
  assumes "0 < n"
  shows "(disciplined ops (new_TileCache n) \<longrightarrow>
            (\<exists>c. run_cache_ops ops (new_TileCache n) = Inr c \<and> cache_inv c)) \<and>
         (\<exists>c. run_accesses kts (new_TileCache n) = Inr c \<and> cache_inv c \<and>
              access_order c = take (unat n) (rev (remdups (map fst kts)))) \<and>
         (distinct (map fst kts) \<and> unat n < length kts \<longrightarrow>
            (\<exists>c. run_accesses kts (new_TileCache n) = Inr c \<and>
                 map_size (tile_map c) = unat n \<and>
                 access_order c = take (unat n) (rev (map fst kts)) \<and>
                 fmdom' (tile_map c) = set (take (unat n) (rev (map fst kts)))))"
proof -
  let ?c0 = "new_TileCache n"
  have i0: "cache_inv ?c0" by (rule cache_inv_new)
  have m0: "0 < max_tiles ?c0" using assms by (simp add: new_TileCache_def)
  have o0: "access_order ?c0 = take (unat (max_tiles ?c0)) (rev (remdups []))"
    by (simp add: new_TileCache_def)
  have a: "disciplined ops ?c0 \<longrightarrow> (\<exists>c. run_cache_ops ops ?c0 = Inr c \<and> cache_inv c)"
    using disciplined_run [OF i0 m0] by blast
  from run_accesses_order [OF i0 m0 o0, of kts]
  obtain c where c: "run_accesses kts ?c0 = Inr c" "cache_inv c"
    "access_order c = take (unat n) (rev (remdups (map fst kts)))"
    by (auto simp: new_TileCache_def)
  have b: "\<exists>c. run_accesses kts ?c0 = Inr c \<and> cache_inv c \<and>
              access_order c = take (unat n) (rev (remdups (map fst kts)))"
    using c by blast
  have d: "\<exists>c. run_accesses kts ?c0 = Inr c \<and> map_size (tile_map c) = unat n \<and>
             access_order c = take (unat n) (rev (map fst kts)) \<and>
             fmdom' (tile_map c) = set (take (unat n) (rev (map fst kts)))"
    if "distinct (map fst kts) \<and> unat n < length kts"
  proof -
    from that have o: "access_order c = take (unat n) (rev (map fst kts))"
      using c(3) by (simp add: distinct_remdups_id)
    have "map_size (tile_map c) = length (access_order c)"
      using c(2) by (rule cache_inv_size)
    with that o have "map_size (tile_map c) = unat n" by simp
    moreover have "fmdom' (tile_map c) = set (take (unat n) (rev (map fst kts)))"
      using c(2) o by (simp add: cache_inv_def)
    ultimately show ?thesis using c(1) o by blast
  qed
  from a b d show ?thesis by blast
qed

theorem cache_invariant_disciplined_witness:
  "0 < (2 :: size_t) \<and>
   disciplined [Contains (0, 0), Put (0, 0) [], Get (0, 0), Put (1, 0) [], Put (2, 0) []]
     (new_TileCache 2) \<and>
   distinct (map fst [((0, 0), []), ((1, 0), []), ((2 :: 32 word, 0 :: 32 word), [] :: tile)]) \<and>
   unat (2 :: size_t) < length [((0, 0), []), ((1, 0), []), ((2 :: 32 word, 0 :: 32 word), [] :: tile)] \<and>
   (\<exists>c. run_accesses [((0, 0), []), ((1, 0), []), ((2, 0), [])] (new_TileCache 2) = Inr c \<and>
        map_size (tile_map c) = 2 \<and> access_order c = [(2, 0), (1, 0)])"
proof -
  have p: "0 < (2 :: size_t)" by simp
  have d: "disciplined [Contains (0, 0), Put (0, 0) [], Get (0, 0), Put (1, 0) [], Put (2, 0) []]
     (new_TileCache 2)"
    by (simp add: new_TileCache_def is_tile_in_cache_def add_tile_to_cache_def evict_if_full_def
        map_size_empty map_size_fmupd get_present)
  have k: "distinct (map fst [((0, 0), []), ((1, 0), []), ((2 :: 32 word, 0 :: 32 word), [] :: tile)]) \<and>
    unat (2 :: size_t) < length [((0, 0), []), ((1, 0), []), ((2 :: 32 word, 0 :: 32 word), [] :: tile)]"
    by simp
  have "\<exists>c. run_accesses [((0, 0), []), ((1, 0), []), ((2, 0), [])] (new_TileCache 2) = Inr c \<and>
        map_size (tile_map c) = 2 \<and> access_order c = [(2, 0), (1, 0)]"
    using k cache_invariant_disciplined [OF p,
        of "[Contains (0, 0), Put (0, 0) [], Get (0, 0), Put (1, 0) [], Put (2, 0) []]"
           "[((0, 0), []), ((1, 0), []), ((2, 0), [])]"]
    by (auto simp del: run_accesses.simps run_cache_ops.simps disciplined.simps)
  with p d k show ?thesis by blast
qed


section \<open>The point query\<close>

subsection \<open>The small dataset, evaluated\<close>

lemma flat_raster_contains: "contains (bbox (flat_raster v)) (1/2) (1/2)"
  by (simp add: contains_def flat_raster_def unit_bbox_def)

lemma replicate_4: "replicate 4 v = [v, v, v, v]"
  by (simp add: numeral_eq_Suc)

lemma flat_raster_read_tile: "read_tile 2 (flat_raster v) (0, 0) = Inr [v, v, v, v]"
  by (simp add: read_tile_def flat_raster_def Let_def replicate_4)

lemma flat_raster_pixel_x: "pixel_index (1/2) (gt0 (geotransform (flat_raster v))) (gt1 (geotransform (flat_raster v))) = Inr 0"
  by (simp add: flat_raster_def unit_geotransform_def pixel_index_def double_quotient_values
      double_to_size_t_def truncate_def)

lemma flat_raster_pixel_y: "pixel_index (1/2) (gt3 (geotransform (flat_raster v))) (gt5 (geotransform (flat_raster v))) = Inr 1"
  by (simp add: flat_raster_def unit_geotransform_def pixel_index_def double_quotient_values
      double_to_size_t_def truncate_def)

lemma flat_raster_transform: "transform (flat_raster v) p = Some p"
  by (simp add: flat_raster_def)

lemma flat_raster_load: "load_tile_cache 2 (0, 0) \<lparr>dataset_info = flat_raster v, tile_cache = new_TileCache 4\<rparr> =
   Inr \<lparr>dataset_info = flat_raster v, tile_cache = 
      \<lparr>max_tiles = 4, tile_map = fmupd (0, 0) [v, v, v, v] fmempty, access_order = [(0, 0)]\<rparr>\<rparr>"
  by (simp add: load_tile_cache_def flat_raster_read_tile add_not_full new_TileCache_def map_size_empty)

lemma flat_raster_is_water: "is_water_raster 2 (1/2) (1/2) \<lparr>dataset_info = flat_raster v, tile_cache = new_TileCache 4\<rparr>
  = Inr (v = 1, \<lparr>dataset_info = flat_raster v, tile_cache = 
      \<lparr>max_tiles = 4, tile_map = fmupd (0, 0) [v, v, v, v] fmempty, access_order = [(0, 0)]\<rparr>\<rparr>)"
  by (simp add: is_water_raster_def cached_tile_def Let_def flat_raster_pixel_x
      flat_raster_pixel_y flat_raster_transform flat_raster_load get_present)
    (simp add: is_tile_in_cache_def new_TileCache_def)


lemma outcome_simps:
  "outcome (Inl e) = Inl e" "outcome (Inr (w, c)) = Inr w"
  by (simp_all add: outcome_def)

lemma is_water_point_skip:
  "\<forall>item\<in>set pre. \<not> contains (bbox (dataset_info item)) lon lat \<Longrightarrow>
   is_water_point ts lon lat (pre @ rest) =
     (case is_water_point ts lon lat rest of
        Inl e \<Rightarrow> Inl e
      | Inr (r, rest') \<Rightarrow> Inr (r, pre @ rest'))"
  by (induction pre) (auto split: sum.splits)

subsection \<open>Pixel indices\<close>

lemma pixel_index_rounds_quotient:
  "pixel_index 1 0 (3602879701896397 / 36028797018963968) = Inr 10"
  by (simp add: pixel_index_def one_tenth_quotient double_to_size_t_def truncate_def)














subsection \<open>Routing over the bounding boxes\<close>

text \<open>
  C7: for every query point that no raster's bounding box contains, the point query
  returns false (not water) and leaves every cache as it was. No transform and no read is
  asked for: the statement holds whatever \<open>transform\<close> and \<open>raster_io\<close> of the rasters do,
  also when they always fail.
\<close>

theorem outside_every_bbox:
  "\<forall>item\<in>set caches. \<not> contains (bbox (dataset_info item)) lon lat \<Longrightarrow>
   is_water_point ts lon lat caches = Inr (False, caches)"
  using is_water_point_skip [of caches lon lat ts "[]"] by simp

theorem outside_every_bbox_witness:
  "\<not> contains (bbox (flat_raster 0)) 5 5 \<and> \<not> contains (bbox (flat_raster 1)) 5 5 \<and>
   is_water_point 2 5 5 (allocate_cache two_rasters) = Inr (False, allocate_cache two_rasters)"
proof -
  have c: "\<not> contains (bbox (flat_raster v)) 5 5" for v
    by (simp add: contains_def flat_raster_def unit_bbox_def)
  have "\<forall>item\<in>set (allocate_cache two_rasters). \<not> contains (bbox (dataset_info item)) 5 5"
    by (simp add: allocate_cache_def two_rasters_def c)
  from outside_every_bbox [OF this, of 2] c show ?thesis by simp
qed

text \<open>
  C1, as the spec states it: when two rasters contain the point and their masks disagree,
  the query returns the verdict of the first containing raster and later rasters never
  influence the result. It does not hold: with a first raster that says not water and a
  second that says water, both containing the point, the query says water.
\<close>

theorem first_raster_counterexample:
  "contains (bbox (flat_raster 0)) (1 / 2) (1 / 2) \<and>
   contains (bbox (flat_raster 1)) (1 / 2) (1 / 2) \<and>
   allocate_cache two_rasters =
     [\<lparr>dataset_info = flat_raster 0, tile_cache = new_TileCache 4\<rparr>,
      \<lparr>dataset_info = flat_raster 1, tile_cache = new_TileCache 4\<rparr>] \<and>
   outcome (is_water_raster 2 (1 / 2) (1 / 2)
              \<lparr>dataset_info = flat_raster 0, tile_cache = new_TileCache 4\<rparr>) = Inr False \<and>
   outcome (is_water_raster 2 (1 / 2) (1 / 2)
              \<lparr>dataset_info = flat_raster 1, tile_cache = new_TileCache 4\<rparr>) = Inr True \<and>
   outcome (is_water_point 2 (1 / 2) (1 / 2) (allocate_cache two_rasters)) = Inr True"
  by (simp add: flat_raster_contains flat_raster_is_water allocate_cache_def two_rasters_def outcome_simps)

text \<open>
  C1, amended: for every query point contained in the bounding boxes of two or more
  rasters whose mask values disagree at that point, the single-point query returns the
  verdict of the first containing raster in input order only when that verdict is water,
  and then no later raster is consulted; when the first containing raster says not water
  the answer is that of the query over the rasters after it. A query that returns says
  water exactly when some raster that contains the point says water.
\<close>

theorem any_containing_raster_water:
  "(\<forall>w caches'. is_water_point ts lon lat caches = Inr (w, caches') \<longrightarrow>
      w = (\<exists>item\<in>set caches. contains (bbox (dataset_info item)) lon lat \<and>
             outcome (is_water_raster ts lon lat item) = Inr True)) \<and>
   (\<forall>pre item item' rest.
      caches = pre @ item # rest \<and>
      (\<forall>p\<in>set pre. \<not> contains (bbox (dataset_info p)) lon lat) \<and>
      contains (bbox (dataset_info item)) lon lat \<longrightarrow>
      (is_water_raster ts lon lat item = Inr (True, item') \<longrightarrow>
         is_water_point ts lon lat caches = Inr (True, pre @ item' # rest)) \<and>
      (is_water_raster ts lon lat item = Inr (False, item') \<longrightarrow>
         outcome (is_water_point ts lon lat caches) =
         outcome (is_water_point ts lon lat rest)))"
proof -
  have a: "is_water_point ts lon lat caches = Inr (w, caches') \<Longrightarrow>
      w = (\<exists>item\<in>set caches. contains (bbox (dataset_info item)) lon lat \<and>
             outcome (is_water_raster ts lon lat item) = Inr True)" for w caches'
  proof (induction caches arbitrary: w caches')
    case Nil
    then show ?case by simp
  next
    case (Cons item rest)
    show ?case
    proof (cases "contains (bbox (dataset_info item)) lon lat")
      case False
      with Cons show ?thesis
        by (auto split: sum.splits)
    next
      case True
      with Cons.prems obtain v item' where v: "is_water_raster ts lon lat item = Inr (v, item')"
        by (auto split: sum.splits)
      show ?thesis
      proof (cases v)
        case True
        with v Cons.prems \<open>contains (bbox (dataset_info item)) lon lat\<close> show ?thesis
          by (auto simp: outcome_simps)
      next
        case False
        with v Cons.prems \<open>contains (bbox (dataset_info item)) lon lat\<close>
        obtain rest' where "is_water_point ts lon lat rest = Inr (w, rest')"
          by (auto split: sum.splits)
        from Cons.IH [OF this] v False show ?thesis
          by (auto simp: outcome_simps)
      qed
    qed
  qed
  have b: "is_water_point ts lon lat (pre @ item # rest) = Inr (True, pre @ item' # rest)"
    if "\<forall>p\<in>set pre. \<not> contains (bbox (dataset_info p)) lon lat"
      "contains (bbox (dataset_info item)) lon lat"
      "is_water_raster ts lon lat item = Inr (True, item')" for pre item item' rest
    using that by (simp add: is_water_point_skip)
  have c: "outcome (is_water_point ts lon lat (pre @ item # rest)) =
           outcome (is_water_point ts lon lat rest)"
    if "\<forall>p\<in>set pre. \<not> contains (bbox (dataset_info p)) lon lat"
      "contains (bbox (dataset_info item)) lon lat"
      "is_water_raster ts lon lat item = Inr (False, item')" for pre item item' rest
    using that by (simp add: is_water_point_skip outcome_def split: sum.splits)
  from a b c show ?thesis by blast
qed

theorem any_containing_raster_water_witness:
  "is_water_point 2 (1 / 2) (1 / 2)
     [\<lparr>dataset_info = flat_raster 0, tile_cache = new_TileCache 4\<rparr>,
      \<lparr>dataset_info = flat_raster 1, tile_cache = new_TileCache 4\<rparr>] =
     Inr (True,
       [\<lparr>dataset_info = flat_raster 0, tile_cache =
           \<lparr>max_tiles = 4, tile_map = fmupd (0, 0) [0, 0, 0, 0] fmempty,
            access_order = [(0, 0)]\<rparr>\<rparr>,
        \<lparr>dataset_info = flat_raster 1, tile_cache =
           \<lparr>max_tiles = 4, tile_map = fmupd (0, 0) [1, 1, 1, 1] fmempty,
            access_order = [(0, 0)]\<rparr>\<rparr>]) \<and>
   contains (bbox (flat_raster 0)) (1 / 2) (1 / 2) \<and>
   contains (bbox (flat_raster 1)) (1 / 2) (1 / 2) \<and>
   outcome (is_water_raster 2 (1 / 2) (1 / 2)
              \<lparr>dataset_info = flat_raster 0, tile_cache = new_TileCache 4\<rparr>) = Inr False \<and>
   outcome (is_water_raster 2 (1 / 2) (1 / 2)
              \<lparr>dataset_info = flat_raster 1, tile_cache = new_TileCache 4\<rparr>) = Inr True \<and>
   outcome (is_water_point 2 (1 / 2) (1 / 2)
              [\<lparr>dataset_info = flat_raster 0, tile_cache = new_TileCache 4\<rparr>,
               \<lparr>dataset_info = flat_raster 1, tile_cache = new_TileCache 4\<rparr>]) =
   outcome (is_water_point 2 (1 / 2) (1 / 2)
              [\<lparr>dataset_info = flat_raster 1, tile_cache = new_TileCache 4\<rparr>])"
  using any_containing_raster_water [of 2 "1 / 2" "1 / 2"
      "[\<lparr>dataset_info = flat_raster 0, tile_cache = new_TileCache 4\<rparr>,
        \<lparr>dataset_info = flat_raster 1, tile_cache = new_TileCache 4\<rparr>]"]
  by (simp add: flat_raster_contains flat_raster_is_water outcome_simps)

section \<open>The batch query\<close>

lemma worker_loop_length:
  "length (snd (worker_loop ds lon lat ix end' cache result)) = length result"
proof (induction ds lon lat ix end' cache result rule: worker_loop.induct)
  case (1 ds lon lat ix end' cache result)
  show ?case
    by (subst worker_loop.simps) (auto split: sum.splits simp: "1.IH")
qed

lemma launch_threads_invariant:
  "(\<And>s e st. P st \<Longrightarrow> P (snd (f s e st))) \<Longrightarrow> P (snd es) \<Longrightarrow>
   P (snd (launch_threads f later size' num_threads shift ix start es))"
proof (induction f later size' num_threads shift ix start es rule: launch_threads.induct)
  case (1 f later size' num_threads shift ix start exception st)
  show ?case
  proof (cases "ix < num_threads")
    case True
    let ?end = "if ix = num_threads - 1 then size' else start + shift"
    let ?r = "f start ?end st"
    let ?exc = "case fst ?r of
        Some e \<Rightarrow> if exception = None \<or> later ix then Some e else exception
      | None \<Rightarrow> exception"
    have "P (snd ?r)" using "1.prems"(2) by (simp add: "1.prems"(1))
    then have "P (snd (?exc, snd ?r))" by simp
    from "1.IH" [OF True refl refl refl "1.prems"(1) this]
    have "P (snd (launch_threads f later size' num_threads shift (Suc ix) (start + shift)
                    (?exc, snd ?r)))" .
    with True show ?thesis
      by (subst launch_threads.simps) (simp add: Let_def)
  next
    case False
    with "1.prems"(2) show ?thesis
      by (subst launch_threads.simps) simp
  qed
qed

lemma parallel_for_invariant:
  assumes "\<And>s e st. P st \<Longrightarrow> P (snd (f s e st))"
    and "P st" and "parallel_for f size' num_threads hardware_concurrency later st = Inr st'"
  shows "P st'"
proof (cases "num_threads = 1")
  case True
  with assms(3) have "st' = snd (f 0 size' st)"
    by (auto simp: parallel_for_def split: prod.splits option.splits)
  with assms(1) [OF assms(2)] show ?thesis by simp
next
  case False
  let ?n = "min (if num_threads = 0 then hardware_concurrency else num_threads) size'"
  from False assms(3) have "st' = snd (launch_threads f later size' ?n (size' div ?n) 0 0 (None, st))"
    by (auto simp: parallel_for_def Let_def split: prod.splits option.splits if_splits)
  moreover have "P (snd (launch_threads f later size' ?n (size' div ?n) 0 0 (None, st)))"
  proof (rule launch_threads_invariant [where P = P and f = f])
    show "P (snd (None, st))" using assms(2) by simp
    show "P (snd (f s e st))" if "P st" for s e st using that by (rule assms(1))
  qed
  ultimately show ?thesis by simp
qed

text \<open>
  C6: when the two coordinate sequences differ in length the batch query fails with
  SizeMismatch; nothing else happens, the result is the error alone. When the lengths are
  equal the dispatch starts from a result of one slot per input point, every slot false,
  and a batch query that returns gives one result per input point.
\<close>

theorem is_water_size_mismatch:
  "(length lon \<noteq> length lat \<longrightarrow>
      is_water ds lon lat num_threads hardware_concurrency later = Inl SizeMismatch) \<and>
   (length lon = length lat \<longrightarrow>
      is_water ds lon lat num_threads hardware_concurrency later =
        parallel_for (worker ds lon lat) (length lon) num_threads hardware_concurrency later
          (zero_result (length lon)) \<and>
      length (zero_result (length lon)) = length lon \<and>
      (\<forall>i < length lon. zero_result (length lon) ! i = False) \<and>
      (\<forall>result. is_water ds lon lat num_threads hardware_concurrency later = Inr result \<longrightarrow>
         length result = length lon))"
proof -
  have "length result = length lon"
    if "length lon = length lat"
      "is_water ds lon lat num_threads hardware_concurrency later = Inr result" for result
  proof -
    from that have "parallel_for (worker ds lon lat) (length lon) num_threads
        hardware_concurrency later (zero_result (length lon)) = Inr result"
      by (simp add: is_water_def)
    from parallel_for_invariant [of "\<lambda>r. length r = length lon", OF _ _ this]
    show ?thesis
      by (simp add: worker_def worker_loop_length zero_result_def)
  qed
  then show ?thesis
    by (auto simp: is_water_def zero_result_def)
qed

theorem is_water_size_mismatch_witness:
  "length [1, 2, 3 :: double] \<noteq> length [1, 2 :: double] \<and>
   is_water two_rasters [1, 2, 3] [1, 2] 2 4 (\<lambda>ix. True) = Inl SizeMismatch \<and>
   length [5 :: double] = length [5 :: double] \<and>
   is_water two_rasters [5] [5] 1 4 (\<lambda>ix. True) = Inr [False]"
proof -
  have w: "worker two_rasters [5] [5] 0 (Suc 0) [False] = (None, [False])"
    unfolding worker_def
    by (subst worker_loop.simps, subst worker_loop.simps)
       (simp add: outside_every_bbox_witness two_rasters_def
          outside_every_bbox_witness [unfolded two_rasters_def])
  show ?thesis
    using is_water_size_mismatch [of "[1, 2, 3]" "[1, 2]" two_rasters 2 4 "\<lambda>ix. True"]
      is_water_size_mismatch [of "[5]" "[5]" two_rasters 1 4 "\<lambda>ix. True"]
    by (simp add: parallel_for_def zero_result_def w)
qed

text \<open>
  C5 fails on the code at an empty input: with \<^verbatim>\<open>size = 0\<close> and any \<^verbatim>\<open>num_threads\<close> other
  than 1, \<^verbatim>\<open>std::min(num_threads, size)\<close> is 0 and \<^verbatim>\<open>size / num_threads\<close> divides by zero,
  where the synchronous path returns the empty result.
\<close>

theorem empty_batch_divides_by_zero:
  "is_water ds [] [] 0 hardware_concurrency later = Inl (Undefined DivisionByZero) \<and>
   is_water ds [] [] 2 hardware_concurrency later = Inl (Undefined DivisionByZero) \<and>
   is_water ds [] [] 8 hardware_concurrency later = Inl (Undefined DivisionByZero) \<and>
   is_water ds [] [] 1 hardware_concurrency later = Inr []"
  by (simp add: is_water_def parallel_for_def worker_def zero_result_def worker_loop.simps)



section \<open>The cache and the answer\<close>

lemma coherent_new:
  "coherent ts \<lparr>dataset_info = info, tile_cache = new_TileCache n\<rparr>"
  by (simp add: coherent_def cache_inv_new) (simp add: new_TileCache_def)

lemma cached_tile_spec:
  assumes "coherent ts dc"
  shows "case cached_tile ts key dc of
           Inl e \<Rightarrow>
             uncached_tile ts (max_tiles (tile_cache dc)) (dataset_info dc) key = Inl e
         | Inr (t, dc') \<Rightarrow>
             uncached_tile ts (max_tiles (tile_cache dc)) (dataset_info dc) key = Inr t \<and>
             coherent ts dc' \<and> dataset_info dc' = dataset_info dc \<and>
             max_tiles (tile_cache dc') = max_tiles (tile_cache dc)"
proof -
  let ?tc = "tile_cache dc"
  let ?info = "dataset_info dc"
  from assms have inv: "cache_inv ?tc"
    and coh: "\<And>k. k \<in> fmdom' (tile_map ?tc) \<Longrightarrow>
                 read_tile ts ?info k = Inr (the (fmlookup (tile_map ?tc) k))"
    by (simp_all add: coherent_def)
  show ?thesis
  proof (cases "is_tile_in_cache key ?tc")
    case True
    then obtain t where t: "fmlookup (tile_map ?tc) key = Some t"
      by (auto simp: is_tile_in_cache_def)
    from True have k: "key \<in> fmdom' (tile_map ?tc)"
      by (simp add: is_tile_in_cache_dom)
    with coh t have r: "read_tile ts ?info key = Inr t" by simp
    from k inv have "access_order ?tc \<noteq> []"
      by (auto simp: cache_inv_def)
    then have "0 < length (access_order ?tc)" by simp
    moreover have "length (access_order ?tc) \<le> unat (max_tiles ?tc)"
      using inv cache_inv_size [OF inv] by (simp add: cache_inv_def)
    ultimately have "0 < unat (max_tiles ?tc)" by linarith
    then have n: "max_tiles ?tc \<noteq> 0" by auto
    let ?tc' = "snd (get_tile_from_cache key ?tc)"
    have i': "cache_inv ?tc'" using inv True by (rule cache_inv_get)
    have m': "tile_map ?tc' = tile_map ?tc" by (simp add: get_present [OF t])
    have "coherent ts (dc\<lparr>tile_cache := ?tc'\<rparr>)"
      using i' coh by (simp add: coherent_def m')
    with True r n show ?thesis
      by (simp add: cached_tile_def uncached_tile_def Let_def max_tiles_get)
         (simp add: get_present [OF t])
  next
    case False
    show ?thesis
    proof (cases "read_tile ts ?info key")
      case (Inl e)
      with False show ?thesis
        by (simp add: cached_tile_def uncached_tile_def load_tile_cache_def)
    next
      case (Inr t)
      show ?thesis
      proof (cases "max_tiles ?tc = 0")
        case True
        with inv have "access_order ?tc = []" "unat (max_tiles ?tc) \<le> map_size (tile_map ?tc)"
          using cache_inv_size [OF inv] by (simp_all add: cache_inv_def)
        then have "add_tile_to_cache key t ?tc = Inl (Undefined BackOfEmptyList)"
          by (simp add: add_undefined)
        with False Inr True show ?thesis
          by (simp add: cached_tile_def uncached_tile_def load_tile_cache_def)
      next
        case n: False
        then have "0 < max_tiles ?tc" by (simp add: word_greater_zero_iff)
        from add_succeeds [OF inv this] obtain tc1
          where tc1: "add_tile_to_cache key t ?tc = Inr tc1" by blast
        have i1: "cache_inv tc1" using inv False tc1 by (rule cache_inv_add)
        have l1: "fmlookup (tile_map tc1) key = Some t" using tc1 by (rule add_lookup_same)
        then have in1: "is_tile_in_cache key tc1" by (simp add: is_tile_in_cache_def)
        let ?tc' = "snd (get_tile_from_cache key tc1)"
        have i': "cache_inv ?tc'" using i1 in1 by (rule cache_inv_get)
        have m': "tile_map ?tc' = tile_map tc1" by (simp add: get_present [OF l1])
        have x': "max_tiles ?tc' = max_tiles ?tc"
          using max_tiles_add [OF tc1] by (simp add: max_tiles_get)
        have "read_tile ts ?info k = Inr (the (fmlookup (tile_map tc1) k))"
          if "k \<in> fmdom' (tile_map tc1)" for k
        proof (cases "k = key")
          case True
          with Inr l1 show ?thesis by simp
        next
          case k: False
          from add_lookup_other [OF tc1 k that]
          have e: "fmlookup (tile_map tc1) k = fmlookup (tile_map ?tc) k" .
          with that have "k \<in> fmdom' (tile_map ?tc)"
            by (auto simp: fmlookup_dom'_iff)
          from coh [OF this] e show ?thesis by simp
        qed
        then have c': "coherent ts (dc\<lparr>tile_cache := ?tc'\<rparr>)"
          using i' by (simp add: coherent_def m')
        have g: "fst (get_tile_from_cache key tc1) = t" by (simp add: get_present [OF l1])
        from False Inr n tc1 c' x' g show ?thesis
          by (simp add: cached_tile_def uncached_tile_def load_tile_cache_def Let_def)
      qed
    qed
  qed
qed

lemma cached_tile_Inl:
  "coherent ts dc \<Longrightarrow> cached_tile ts key dc = Inl e \<Longrightarrow>
   uncached_tile ts (max_tiles (tile_cache dc)) (dataset_info dc) key = Inl e"
  using cached_tile_spec [of ts dc key] by simp

lemma cached_tile_Inr:
  "coherent ts dc \<Longrightarrow> cached_tile ts key dc = Inr (t, dc') \<Longrightarrow>
   uncached_tile ts (max_tiles (tile_cache dc)) (dataset_info dc) key = Inr t \<and>
   coherent ts dc' \<and> dataset_info dc' = dataset_info dc \<and>
   max_tiles (tile_cache dc') = max_tiles (tile_cache dc)"
  using cached_tile_spec [of ts dc key] by simp

lemma is_water_raster_Inl:
  assumes "coherent ts dc" "is_water_raster ts lon lat dc = Inl e"
  shows "raster_verdict ts (max_tiles (tile_cache dc)) lon lat (dataset_info dc) = Inl e"
  using assms(2)
  by (auto simp: is_water_raster_def raster_verdict_def Let_def
      split: option.splits sum.splits prod.splits if_splits
      dest: cached_tile_Inl [OF assms(1)] cached_tile_Inr [OF assms(1)])

lemma is_water_raster_Inr:
  assumes "coherent ts dc" "is_water_raster ts lon lat dc = Inr (w, dc')"
  shows "raster_verdict ts (max_tiles (tile_cache dc)) lon lat (dataset_info dc) = Inr w \<and>
         coherent ts dc' \<and> dataset_info dc' = dataset_info dc \<and>
         max_tiles (tile_cache dc') = max_tiles (tile_cache dc)"
  using assms(2)
  by (auto simp: is_water_raster_def raster_verdict_def Let_def
      split: option.splits sum.splits prod.splits if_splits
      dest: cached_tile_Inl [OF assms(1)] cached_tile_Inr [OF assms(1)])


lemma is_water_point_spec:
  assumes "\<forall>dc\<in>set caches. coherent ts dc \<and> max_tiles (tile_cache dc) = n"
  shows "case is_water_point ts lon lat caches of
           Inl e \<Rightarrow> point_verdict ts n lon lat (map dataset_info caches) = Inl e
         | Inr (w, caches') \<Rightarrow>
             point_verdict ts n lon lat (map dataset_info caches) = Inr w \<and>
             map dataset_info caches' = map dataset_info caches \<and>
             (\<forall>dc\<in>set caches'. coherent ts dc \<and> max_tiles (tile_cache dc) = n)"
  using assms
proof (induction caches)
  case Nil
  then show ?case by simp
next
  case (Cons item rest)
  then have item: "coherent ts item" "max_tiles (tile_cache item) = n"
    and rest: "\<forall>dc\<in>set rest. coherent ts dc \<and> max_tiles (tile_cache dc) = n"
    by simp_all
  note ih = Cons.IH [OF rest]
  show ?case
  proof (cases "contains (bbox (dataset_info item)) lon lat")
    case False
    with ih item show ?thesis
      by (auto split: sum.splits)
  next
    case True
    show ?thesis
    proof (cases "is_water_raster ts lon lat item")
      case (Inl e)
      from is_water_raster_Inl [OF item(1) Inl] True Inl item(2) show ?thesis
        by simp
    next
      case (Inr r)
      obtain w item' where r: "r = (w, item')" by (cases r)
      from is_water_raster_Inr [OF item(1) Inr [unfolded r]] item(2)
      have v: "raster_verdict ts n lon lat (dataset_info item) = Inr w"
        and i': "coherent ts item'" "dataset_info item' = dataset_info item"
          "max_tiles (tile_cache item') = n"
        by simp_all
      show ?thesis
      proof (cases w)
        case True
        with \<open>contains (bbox (dataset_info item)) lon lat\<close> Inr r v i' rest show ?thesis
          by simp
      next
        case False
        with \<open>contains (bbox (dataset_info item)) lon lat\<close> Inr r v i' ih show ?thesis
          by (auto split: sum.splits)
      qed
    qed
  qed
qed

lemma max_tiles_new: "max_tiles (new_TileCache n) = n"
  by (simp add: new_TileCache_def)

lemma caches_of_allocate: "caches_of ts ds (allocate_cache ds)"
  by (auto simp: caches_of_def allocate_cache_def coherent_new comp_def max_tiles_new)

lemma is_water_point_outcome:
  assumes "caches_of ts ds caches"
  shows "outcome (is_water_point ts lon lat caches) =
         point_verdict ts (max_cache_size ds) lon lat (base_datasets ds)"
proof -
  from assms have a: "\<forall>dc\<in>set caches. coherent ts dc \<and> max_tiles (tile_cache dc) = max_cache_size ds"
    and b: "map dataset_info caches = base_datasets ds"
    by (simp_all add: caches_of_def)
  from is_water_point_spec [OF a, of lon lat] b show ?thesis
    by (auto simp: outcome_def split: sum.splits)
qed

lemma is_water_point_caches_of:
  assumes "caches_of ts ds caches" "is_water_point ts lon lat caches = Inr (w, caches')"
  shows "caches_of ts ds caches'"
proof -
  from assms(1) have a: "\<forall>dc\<in>set caches. coherent ts dc \<and> max_tiles (tile_cache dc) = max_cache_size ds"
    and b: "map dataset_info caches = base_datasets ds"
    by (simp_all add: caches_of_def)
  from is_water_point_spec [OF a, of lon lat] b assms(2) show ?thesis
    by (simp add: caches_of_def)
qed

lemma run_queries_caches_of:
  "caches_of ts ds caches \<Longrightarrow> run_queries ts pts caches = Inr caches' \<Longrightarrow>
   caches_of ts ds caches'"
proof (induction pts arbitrary: caches)
  case Nil
  then show ?case by simp
next
  case (Cons p pts)
  obtain lon lat where p: "p = (lon, lat)" by (cases p)
  from Cons.prems(2) obtain w c1 where c1: "is_water_point ts lon lat caches = Inr (w, c1)"
    and r: "run_queries ts pts c1 = Inr caches'"
    by (auto simp: p split: sum.splits)
  from Cons.IH [OF is_water_point_caches_of [OF Cons.prems(1) c1] r] show ?case .
qed

lemma two_rasters_allocate:
  "allocate_cache two_rasters =
     [\<lparr>dataset_info = flat_raster 0, tile_cache = new_TileCache 4\<rparr>,
      \<lparr>dataset_info = flat_raster 1, tile_cache = new_TileCache 4\<rparr>]"
  by (simp add: allocate_cache_def two_rasters_def)

lemma two_rasters_query:
  "is_water_point 2 (1 / 2) (1 / 2) (allocate_cache two_rasters) =
     Inr (True,
       [\<lparr>dataset_info = flat_raster 0, tile_cache =
           \<lparr>max_tiles = 4, tile_map = fmupd (0, 0) [0, 0, 0, 0] fmempty,
            access_order = [(0, 0)]\<rparr>\<rparr>,
        \<lparr>dataset_info = flat_raster 1, tile_cache =
           \<lparr>max_tiles = 4, tile_map = fmupd (0, 0) [1, 1, 1, 1] fmempty,
            access_order = [(0, 0)]\<rparr>\<rparr>])"
  by (simp add: two_rasters_allocate flat_raster_contains flat_raster_is_water)

subsection \<open>Workers, chunks and slots\<close>

lemma worker_loop_spec:
  "caches_of (tile_size ds) ds cache \<Longrightarrow> end' \<le> length lon \<Longrightarrow> length lat = length lon \<Longrightarrow>
   length result = length lon \<Longrightarrow>
   chunk_ok (slot_verdict ds lon lat) ix end' result (worker_loop ds lon lat ix end' cache result)"
proof (induction ds lon lat ix end' cache result rule: worker_loop.induct)
  case (1 ds lon lat ix end' cache result)
  show ?case
  proof (cases "ix < end'")
    case False
    then show ?thesis
      by (subst worker_loop.simps) (auto simp: chunk_ok_def)
  next
    case True
    with "1.prems" have rng: "ix < length lon \<and> ix < length lat \<and> ix < length result"
      by simp
    have v: "outcome (is_water_point (tile_size ds) (lon ! ix) (lat ! ix) cache) =
             slot_verdict ds lon lat ix"
      unfolding slot_verdict_def using "1.prems"(1) by (rule is_water_point_outcome)
    show ?thesis
    proof (cases "is_water_point (tile_size ds) (lon ! ix) (lat ! ix) cache")
      case (Inl e)
      with v have "slot_verdict ds lon lat ix = Inl e" by (simp add: outcome_simps)
      with True rng Inl show ?thesis
        by (subst worker_loop.simps) (auto simp: chunk_ok_def)
    next
      case (Inr p)
      obtain w cache' where p: "p = (w, cache')" by (cases p)
      from v Inr p have vw: "slot_verdict ds lon lat ix = Inr w" by (simp add: outcome_simps)
      have c': "caches_of (tile_size ds) ds cache'"
        using "1.prems"(1) Inr [unfolded p] by (rule is_water_point_caches_of)
      let ?r = "worker_loop ds lon lat (Suc ix) end' cache' (result[ix := w])"
      have ih: "chunk_ok (slot_verdict ds lon lat) (Suc ix) end' (result[ix := w]) ?r"
        using "1.IH" [OF True rng Inr [unfolded p] refl c'] "1.prems" by simp
      have e: "worker_loop ds lon lat ix end' cache result = ?r"
        using True rng Inr p by (subst worker_loop.simps) simp
      have "chunk_ok (slot_verdict ds lon lat) ix end' result ?r"
        unfolding chunk_ok_def
      proof (intro conjI allI impI)
        show "length (snd ?r) = length result"
          using ih by (simp add: chunk_ok_def)
        show "snd ?r ! i = result ! i" if "i < length result" "\<not> (ix \<le> i \<and> i < end')" for i
        proof -
          from that True have "\<not> (Suc ix \<le> i \<and> i < end')" "i \<noteq> ix" by auto
          with ih that(1) show ?thesis by (simp add: chunk_ok_def)
        qed
        show "case fst ?r of
                None \<Rightarrow> \<forall>i. ix \<le> i \<and> i < end' \<longrightarrow> slot_verdict ds lon lat i = Inr (snd ?r ! i)
              | Some x \<Rightarrow> \<exists>i. ix \<le> i \<and> i < end' \<and> slot_verdict ds lon lat i = Inl x"
        proof (cases "fst ?r")
          case None
          have "slot_verdict ds lon lat i = Inr (snd ?r ! i)" if "ix \<le> i \<and> i < end'" for i
          proof (cases "i = ix")
            case True
            have "snd ?r ! ix = (result[ix := w]) ! ix"
              using ih rng by (simp add: chunk_ok_def)
            with True vw rng show ?thesis by simp
          next
            case False
            with that have "Suc ix \<le> i \<and> i < end'" by simp
            with ih None show ?thesis by (simp add: chunk_ok_def)
          qed
          with None show ?thesis by simp
        next
          case (Some x)
          with ih obtain i where "Suc ix \<le> i \<and> i < end' \<and> slot_verdict ds lon lat i = Inl x"
            by (auto simp: chunk_ok_def)
          then have "ix \<le> i \<and> i < end' \<and> slot_verdict ds lon lat i = Inl x" by simp
          with Some show ?thesis by auto
        qed
      qed
      with e show ?thesis by simp
    qed
  qed
qed


lemma worker_spec:
  "e \<le> length lon \<Longrightarrow> length lat = length lon \<Longrightarrow> length st = length lon \<Longrightarrow>
   chunk_ok (slot_verdict ds lon lat) s e st (worker ds lon lat s e st)"
  unfolding worker_def by (rule worker_loop_spec [OF caches_of_allocate])

lemma launch_threads_spec:
  "(\<And>s e st. e \<le> n \<Longrightarrow> length st = n \<Longrightarrow> chunk_ok V s e st (f s e st)) \<Longrightarrow>
   num_threads * shift \<le> n \<Longrightarrow> start = ix * shift \<Longrightarrow> length (snd es) = n \<Longrightarrow>
   length (snd (launch_threads f later n num_threads shift ix start es)) = n \<and>
   (\<forall>i<n. i < start \<or> num_threads \<le> ix \<longrightarrow>
      snd (launch_threads f later n num_threads shift ix start es) ! i = snd es ! i) \<and>
   (case fst (launch_threads f later n num_threads shift ix start es) of
      None \<Rightarrow> fst es = None \<and>
        (ix < num_threads \<longrightarrow>
           (\<forall>i. start \<le> i \<and> i < n \<longrightarrow>
              V i = Inr (snd (launch_threads f later n num_threads shift ix start es) ! i)))
    | Some x \<Rightarrow> fst es \<noteq> None \<or> (\<exists>i<n. \<exists>x'. V i = Inl x'))"
proof (induction f later n num_threads shift ix start es rule: launch_threads.induct)
  case (1 f later n num_threads shift ix start exception st)
  show ?case
  proof (cases "ix < num_threads")
    case False
    then have "launch_threads f later n num_threads shift ix start (exception, st) = (exception, st)"
      by (subst launch_threads.simps) simp
    with False "1.prems"(4) show ?thesis by (auto split: option.splits)
  next
    case True
    define en where "en = (if ix = num_threads - 1 then n else start + shift)"
    define r where "r = f start en st"
    define exc where
      "exc = (case fst r of
                Some e \<Rightarrow> if exception = None \<or> later ix then Some e else exception
              | None \<Rightarrow> exception)"
    define res where
      "res = launch_threads f later n num_threads shift (Suc ix) (start + shift) (exc, snd r)"
    have st: "length st = n" using "1.prems"(4) by simp
    have "Suc ix * shift \<le> num_threads * shift"
      using True by (intro mult_le_mono1) simp
    with "1.prems"(2,3) have sh: "start + shift \<le> n" by simp
    then have en: "en \<le> n" by (simp add: en_def)
    have ck: "chunk_ok V start en st r" unfolding r_def using en st by (rule "1.prems"(1))
    then have lr: "length (snd r) = n"
      and keep: "\<And>i. i < n \<Longrightarrow> \<not> (start \<le> i \<and> i < en) \<Longrightarrow> snd r ! i = st ! i"
      using st by (simp_all add: chunk_ok_def)
    have s': "start + shift = Suc ix * shift" using "1.prems"(3) by simp
    have l': "length (snd (exc, snd r)) = n" using lr by simp
    note ih = "1.IH" [OF True en_def r_def exc_def "1.prems"(1) "1.prems"(2) s' l',
        folded res_def]
    have e: "launch_threads f later n num_threads shift ix start (exception, st) = res"
      using True unfolding res_def exc_def r_def en_def
      by (subst launch_threads.simps) (simp add: Let_def)
    have a: "length (snd res) = n" using ih by simp
    have b: "snd res ! i = st ! i" if "i < n" "i < start \<or> num_threads \<le> ix" for i
    proof -
      from that True have i: "i < start" by simp
      then have "snd res ! i = snd r ! i" using ih that(1) by simp
      moreover have "start \<le> en" by (simp add: en_def sh [THEN add_leD1])
      then have "snd r ! i = st ! i" using keep [OF that(1)] i by simp
      ultimately show ?thesis by simp
    qed
    have c: "case fst res of
        None \<Rightarrow> exception = None \<and>
          (\<forall>i. start \<le> i \<and> i < n \<longrightarrow> V i = Inr (snd res ! i))
      | Some x \<Rightarrow> exception \<noteq> None \<or> (\<exists>i<n. \<exists>x'. V i = Inl x')"
    proof (cases "fst res")
      case None
      with ih have x: "exc = None"
        and cover: "Suc ix < num_threads \<Longrightarrow> start + shift \<le> i \<and> i < n \<Longrightarrow>
                     V i = Inr (snd res ! i)" for i
        by simp_all
      from x have rn: "fst r = None" and en': "exception = None"
        by (simp_all add: exc_def split: option.splits if_splits)
      from ck rn have own: "\<And>i. start \<le> i \<and> i < en \<Longrightarrow> V i = Inr (snd r ! i)"
        by (simp add: chunk_ok_def)
      have "V i = Inr (snd res ! i)" if i: "start \<le> i \<and> i < n" for i
      proof (cases "Suc ix < num_threads")
        case last: False
        with True have "ix = num_threads - 1" by simp
        then have "en = n" by (simp add: en_def)
        with own [of i] i have "V i = Inr (snd r ! i)" by simp
        moreover have "snd res ! i = snd r ! i" using ih i last by simp
        ultimately show ?thesis by simp
      next
        case more: True
        then have "ix \<noteq> num_threads - 1" by linarith
        then have ne: "en = start + shift" by (simp add: en_def)
        show ?thesis
        proof (cases "i < start + shift")
          case True
          with own [of i] i ne have "V i = Inr (snd r ! i)" by simp
          moreover have "snd res ! i = snd r ! i" using ih i True by simp
          ultimately show ?thesis by simp
        next
          case False
          with cover [OF more, of i] i show ?thesis by simp
        qed
      qed
      with None en' show ?thesis by simp
    next
      case (Some x)
      with ih have "exc \<noteq> None \<or> (\<exists>i<n. \<exists>x'. V i = Inl x')" by simp
      then show ?thesis
      proof
        assume "exc \<noteq> None"
        then consider y where "fst r = Some y" | "exception \<noteq> None"
          by (auto simp: exc_def split: option.splits if_splits)
        then show ?thesis
        proof cases
          case 1
          with ck obtain i where "start \<le> i \<and> i < en \<and> V i = Inl y"
            by (auto simp: chunk_ok_def)
          with en have "i < n \<and> V i = Inl y" by auto
          with Some show ?thesis by auto
        next
          case 2
          with Some show ?thesis by simp
        qed
      next
        assume "\<exists>i<n. \<exists>x'. V i = Inl x'"
        with Some show ?thesis by simp
      qed
    qed
    from a b c True show ?thesis
      unfolding e by (auto split: option.splits)
  qed
qed


lemma parallel_for_Inr:
  assumes f: "\<And>s e st. e \<le> n \<Longrightarrow> length st = n \<Longrightarrow> chunk_ok V s e st (f s e st)"
    and st: "length st = n"
    and r: "parallel_for f n num_threads hardware_concurrency later st = Inr st'"
  shows "length st' = n \<and> (\<forall>i<n. V i = Inr (st' ! i))"
proof (cases "num_threads = 1")
  case True
  have ck: "chunk_ok V 0 n st (f 0 n st)" using le_refl st by (rule f)
  from True r have "fst (f 0 n st) = None" "st' = snd (f 0 n st)"
    by (auto simp: parallel_for_def split: prod.splits option.splits)
  with ck st show ?thesis by (simp add: chunk_ok_def)
next
  case False
  define k where "k = min (if num_threads = 0 then hardware_concurrency else num_threads) n"
  define res where "res = launch_threads f later n k (n div k) 0 0 (None, st)"
  from False r have k: "k \<noteq> 0" and res: "fst res = None" "st' = snd res"
    by (auto simp: parallel_for_def Let_def k_def res_def split: prod.splits option.splits if_splits)
  have "k * (n div k) \<le> n" by simp
  from launch_threads_spec [where V = V and es = "(None, st)" and later = later and start = 0
      and ix = 0, OF f this, folded res_def]
    st res k
  show ?thesis by simp
qed

lemma parallel_for_Inl:
  assumes f: "\<And>s e st. e \<le> n \<Longrightarrow> length st = n \<Longrightarrow> chunk_ok V s e st (f s e st)"
    and st: "length st = n"
    and r: "parallel_for f n num_threads hardware_concurrency later st = Inl x"
  shows "(num_threads \<noteq> 1 \<and>
          min (if num_threads = 0 then hardware_concurrency else num_threads) n = 0) \<or>
         (\<exists>i<n. \<exists>x'. V i = Inl x')"
proof (cases "num_threads = 1")
  case True
  have ck: "chunk_ok V 0 n st (f 0 n st)" using le_refl st by (rule f)
  from True r have "fst (f 0 n st) = Some x"
    by (auto simp: parallel_for_def split: prod.splits option.splits)
  with ck show ?thesis by (auto simp: chunk_ok_def)
next
  case False
  define k where "k = min (if num_threads = 0 then hardware_concurrency else num_threads) n"
  define res where "res = launch_threads f later n k (n div k) 0 0 (None, st)"
  show ?thesis
  proof (cases "k = 0")
    case True
    with False show ?thesis by (simp add: k_def)
  next
    case k: False
    with False r have res: "fst res = Some x"
      by (auto simp: parallel_for_def Let_def k_def res_def split: prod.splits option.splits if_splits)
    have "k * (n div k) \<le> n" by simp
    from launch_threads_spec [where V = V and es = "(None, st)" and later = later and start = 0
      and ix = 0, OF f this, folded res_def]
      st res
    show ?thesis by simp
  qed
qed

lemma is_water_Inr:
  assumes "is_water ds lon lat num_threads hardware_concurrency later = Inr result"
  shows "length lat = length lon \<and> length result = length lon \<and>
         (\<forall>i<length lon. slot_verdict ds lon lat i = Inr (result ! i))"
proof -
  from assms have l: "length lat = length lon"
    and p: "parallel_for (worker ds lon lat) (length lon) num_threads hardware_concurrency later
              (zero_result (length lon)) = Inr result"
    by (simp_all add: is_water_def split: if_splits)
  have z: "length (zero_result (length lon)) = length lon" by (simp add: zero_result_def)
  have "length result = length lon \<and>
        (\<forall>i<length lon. slot_verdict ds lon lat i = Inr (result ! i))"
  proof (rule parallel_for_Inr [OF _ z p])
    show "chunk_ok (slot_verdict ds lon lat) s e st (worker ds lon lat s e st)"
      if "e \<le> length lon" "length st = length lon" for s e st
      using that(1) l that(2) by (rule worker_spec)
  qed
  with l show ?thesis by simp
qed

lemma is_water_Inl:
  assumes "is_water ds lon lat num_threads hardware_concurrency later = Inl x"
  shows "length lon \<noteq> length lat \<or>
         (num_threads \<noteq> 1 \<and>
          min (if num_threads = 0 then hardware_concurrency else num_threads) (length lon) = 0) \<or>
         (\<exists>i<length lon. \<exists>x'. slot_verdict ds lon lat i = Inl x')"
proof (cases "length lon = length lat")
  case False
  then show ?thesis by simp
next
  case True
  with assms have p: "parallel_for (worker ds lon lat) (length lon) num_threads
      hardware_concurrency later (zero_result (length lon)) = Inl x"
    by (simp add: is_water_def)
  have z: "length (zero_result (length lon)) = length lon" by (simp add: zero_result_def)
  have "(num_threads \<noteq> 1 \<and>
          min (if num_threads = 0 then hardware_concurrency else num_threads) (length lon) = 0) \<or>
         (\<exists>i<length lon. \<exists>x'. slot_verdict ds lon lat i = Inl x')"
  proof (rule parallel_for_Inl [OF _ z p])
    show "chunk_ok (slot_verdict ds lon lat) s e st (worker ds lon lat s e st)"
      if "e \<le> length lon" "length st = length lon" for s e st
      using that(1) True [symmetric] that(2) by (rule worker_spec)
  qed
  then show ?thesis by blast
qed

lemma is_water_threads_to_sync:
  assumes "is_water ds lon lat num_threads hardware_concurrency later = Inr result"
  shows "is_water ds lon lat 1 hc lt = Inr result"
proof (cases "is_water ds lon lat 1 hc lt")
  case (Inl x)
  from is_water_Inr [OF assms] is_water_Inl [OF Inl] show ?thesis by auto
next
  case (Inr r1)
  from is_water_Inr [OF assms] is_water_Inr [OF Inr]
  have "length r1 = length result" "\<forall>i<length r1. r1 ! i = result ! i" by auto
  then have "r1 = result" by (auto intro: nth_equalityI)
  with Inr show ?thesis by simp
qed

lemma is_water_sync_to_threads:
  assumes "is_water ds lon lat 1 hc lt = Inr result"
    and "0 < min (if num_threads = 0 then hardware_concurrency else num_threads) (length lon)"
  shows "is_water ds lon lat num_threads hardware_concurrency later = Inr result"
proof (cases "is_water ds lon lat num_threads hardware_concurrency later")
  case (Inl x)
  from is_water_Inr [OF assms(1)] is_water_Inl [OF Inl] assms(2) show ?thesis by auto
next
  case (Inr r1)
  from is_water_Inr [OF assms(1)] is_water_Inr [OF Inr]
  have "length r1 = length result" "\<forall>i<length r1. r1 ! i = result ! i" by auto
  then have "r1 = result" by (auto intro: nth_equalityI)
  with Inr show ?thesis by simp
qed

lemma is_water_same_point:
  assumes "is_water ds lon1 lat1 n1 h1 l1 = Inr r1" "is_water ds lon2 lat2 n2 h2 l2 = Inr r2"
    and "i < length lon1" "j < length lon2" "lon1 ! i = lon2 ! j" "lat1 ! i = lat2 ! j"
  shows "r1 ! i = r2 ! j"
proof -
  from is_water_Inr [OF assms(1)] assms(3)
  have "slot_verdict ds lon1 lat1 i = Inr (r1 ! i)" by simp
  moreover from is_water_Inr [OF assms(2)] assms(4)
  have "slot_verdict ds lon2 lat2 j = Inr (r2 ! j)" by simp
  moreover have "slot_verdict ds lon1 lat1 i = slot_verdict ds lon2 lat2 j"
    using assms(5,6) by (simp add: slot_verdict_def)
  ultimately show ?thesis by simp
qed

lemma launch_threads_chunks:
  "snd (launch_threads f later n num_threads shift ix start es) =
     foldl (\<lambda>st (s, e). snd (f s e st)) (snd es) (chunks n num_threads shift ix start)"
proof (induction f later n num_threads shift ix start es rule: launch_threads.induct)
  case (1 f later n num_threads shift ix start exception st)
  show ?case
  proof (cases "ix < num_threads")
    case True
    define en where "en = (if ix = num_threads - 1 then n else start + shift)"
    define r where "r = f start en st"
    define exc where
      "exc = (case fst r of
                Some e \<Rightarrow> if exception = None \<or> later ix then Some e else exception
              | None \<Rightarrow> exception)"
    note ih = "1.IH" [OF True en_def r_def exc_def]
    have l: "launch_threads f later n num_threads shift ix start (exception, st) =
             launch_threads f later n num_threads shift (Suc ix) (start + shift) (exc, snd r)"
      using True unfolding exc_def r_def en_def
      by (subst launch_threads.simps) (simp add: Let_def)
    have c: "chunks n num_threads shift ix start =
             (start, en) # chunks n num_threads shift (Suc ix) (start + shift)"
      using True unfolding en_def by (subst chunks.simps) simp
    show ?thesis
      unfolding l c ih by (simp add: r_def)
  next
    case False
    then show ?thesis
      by (subst launch_threads.simps, subst chunks.simps) simp
  qed
qed

text \<open>
  When two threads fail, the schedule picks the exception that is rethrown: the later
  catch overwrites the earlier one.
\<close>

lemma surviving_exception_follows_schedule:
  "launch_threads (\<lambda>s e st. (Some (if s = 0 then IOError else OutOfBounds), st)) later
     2 2 1 0 0 (None, st) =
   (Some (if later 1 then OutOfBounds else IOError), st)"
  by (simp add: launch_threads.simps Let_def)

lemma chunks_partition:
  "ix < num_threads \<Longrightarrow> num_threads * shift \<le> n \<Longrightarrow> start = ix * shift \<Longrightarrow>
   concat (map (\<lambda>(s, e). [s..<e]) (chunks n num_threads shift ix start)) = [start..<n]"
proof (induction n num_threads shift ix start rule: chunks.induct)
  case (1 n num_threads shift ix start)
  have "Suc ix * shift \<le> num_threads * shift"
    using "1.prems"(1) by (intro mult_le_mono1) simp
  with "1.prems"(2,3) have sh: "start + shift \<le> n" by simp
  show ?case
  proof (cases "Suc ix < num_threads")
    case True
    then have ne: "ix \<noteq> num_threads - 1" by linarith
    from "1.IH" [OF "1.prems"(1) True "1.prems"(2)] "1.prems"(3)
    have "concat (map (\<lambda>(s, e). [s..<e]) (chunks n num_threads shift (Suc ix) (start + shift))) =
          [start + shift..<n]" by simp
    moreover have "[start..<start + shift] @ [start + shift..<n] = [start..<n]"
      using sh by (metis le_add1 upt_add_eq_append le_Suc_ex)
    ultimately show ?thesis
      using "1.prems"(1) ne by (subst chunks.simps) simp
  next
    case False
    with "1.prems"(1) have l: "ix = num_threads - 1" by linarith
    have "chunks n num_threads shift (Suc ix) (start + shift) = []"
      using False by (subst chunks.simps) simp
    with "1.prems"(1) l show ?thesis
      by (subst chunks.simps) simp
  qed
qed


text \<open>
  Where the dispatch does not divide by zero, it returns exactly the results the synchronous
  path returns, and the chunks it hands out are the consecutive pieces of \<open>[0, size)\<close>.
\<close>

lemma parallel_matches_synchronous:
  assumes "0 < min (if num_threads = 0 then hardware_concurrency else num_threads) (length lon)"
  shows "is_water ds lon lat num_threads hardware_concurrency later = Inr result \<longleftrightarrow>
         is_water ds lon lat 1 hc lt = Inr result"
  using is_water_threads_to_sync [of ds lon lat num_threads hardware_concurrency later result hc lt]
    is_water_sync_to_threads [OF _ assms, of ds lat hc lt result later]
  by blast

lemma chunks_cover:
  assumes "0 < num_threads"
  shows "concat (map (\<lambda>(s, e). [s..<e]) (chunks n num_threads (n div num_threads) 0 0)) =
         [0..<n]"
  using chunks_partition [OF assms, of "n div num_threads" n 0] by simp

subsection \<open>The small dataset, in batches\<close>

lemma flat_raster_is_water_hit:
  "is_water_raster 2 (1 / 2) (1 / 2)
     \<lparr>dataset_info = flat_raster v, tile_cache =
        \<lparr>max_tiles = 4, tile_map = fmupd (0, 0) [v, v, v, v] fmempty,
         access_order = [(0, 0)]\<rparr>\<rparr> =
   Inr (v = 1,
     \<lparr>dataset_info = flat_raster v, tile_cache =
        \<lparr>max_tiles = 4, tile_map = fmupd (0, 0) [v, v, v, v] fmempty,
         access_order = [(0, 0)]\<rparr>\<rparr>)"
  by (simp add: is_water_raster_def cached_tile_def Let_def flat_raster_pixel_x
      flat_raster_pixel_y flat_raster_transform get_present is_tile_in_cache_def)

lemma two_rasters_query_warm:
  "is_water_point 2 (1 / 2) (1 / 2)
     [\<lparr>dataset_info = flat_raster 0, tile_cache =
         \<lparr>max_tiles = 4, tile_map = fmupd (0, 0) [0, 0, 0, 0] fmempty,
          access_order = [(0, 0)]\<rparr>\<rparr>,
      \<lparr>dataset_info = flat_raster 1, tile_cache =
         \<lparr>max_tiles = 4, tile_map = fmupd (0, 0) [1, 1, 1, 1] fmempty,
          access_order = [(0, 0)]\<rparr>\<rparr>] =
   Inr (True,
     [\<lparr>dataset_info = flat_raster 0, tile_cache =
         \<lparr>max_tiles = 4, tile_map = fmupd (0, 0) [0, 0, 0, 0] fmempty,
          access_order = [(0, 0)]\<rparr>\<rparr>,
      \<lparr>dataset_info = flat_raster 1, tile_cache =
         \<lparr>max_tiles = 4, tile_map = fmupd (0, 0) [1, 1, 1, 1] fmempty,
          access_order = [(0, 0)]\<rparr>\<rparr>])"
  by (simp add: flat_raster_contains flat_raster_is_water_hit)

lemma two_rasters_tile_size: "tile_size two_rasters = 2"
  by (simp add: two_rasters_def)

lemma two_rasters_batch_sync:
  "is_water two_rasters [1 / 2, 1 / 2] [1 / 2, 1 / 2] 1 hc later = Inr [True, True]"
  by (simp add: is_water_def parallel_for_def zero_result_def worker_def worker_loop.simps
      two_rasters_tile_size two_rasters_query [unfolded two_rasters_allocate]
      two_rasters_allocate two_rasters_query_warm del: is_water_point.simps)

lemma two_rasters_batch_threads:
  "is_water two_rasters [1 / 2, 1 / 2] [1 / 2, 1 / 2] 2 hc later = Inr [True, True]"
  by (simp add: is_water_def parallel_for_def zero_result_def worker_def worker_loop.simps
      launch_threads.simps Let_def
      two_rasters_tile_size two_rasters_query [unfolded two_rasters_allocate]
      two_rasters_allocate two_rasters_query_warm del: is_water_point.simps)


text \<open>
  C9: whatever point queries a worker has answered before on the caches it allocated,
  the next query for a point answers as the same query does on fresh caches: the same
  verdict, or the same failure. Hits and misses differ in the caches they leave, never in
  the answer. So two slots that hold the same point get the same result, within one batch
  call and across batch calls, whatever the other points, the thread counts and
  the schedules are.
\<close>

theorem cache_never_alters_result:
  "(run_queries (tile_size ds) pts (allocate_cache ds) = Inr caches \<longrightarrow>
      outcome (is_water_point (tile_size ds) lon lat caches) =
      outcome (is_water_point (tile_size ds) lon lat (allocate_cache ds))) \<and>
   (is_water ds lon1 lat1 n1 h1 l1 = Inr r1 \<and> is_water ds lon2 lat2 n2 h2 l2 = Inr r2 \<and>
    i < length lon1 \<and> j < length lon2 \<and> lon1 ! i = lon2 ! j \<and> lat1 ! i = lat2 ! j \<longrightarrow>
      r1 ! i = r2 ! j)"
proof -
  have a: "outcome (is_water_point (tile_size ds) lon lat caches) =
           outcome (is_water_point (tile_size ds) lon lat (allocate_cache ds))"
    if "run_queries (tile_size ds) pts (allocate_cache ds) = Inr caches"
  proof -
    have "caches_of (tile_size ds) ds caches"
      using caches_of_allocate that by (rule run_queries_caches_of)
    then have "outcome (is_water_point (tile_size ds) lon lat caches) =
        point_verdict (tile_size ds) (max_cache_size ds) lon lat (base_datasets ds)"
      by (rule is_water_point_outcome)
    moreover have "outcome (is_water_point (tile_size ds) lon lat (allocate_cache ds)) =
        point_verdict (tile_size ds) (max_cache_size ds) lon lat (base_datasets ds)"
      using caches_of_allocate by (rule is_water_point_outcome)
    ultimately show ?thesis by simp
  qed
  have b: "r1 ! i = r2 ! j"
    if "is_water ds lon1 lat1 n1 h1 l1 = Inr r1 \<and> is_water ds lon2 lat2 n2 h2 l2 = Inr r2 \<and>
        i < length lon1 \<and> j < length lon2 \<and> lon1 ! i = lon2 ! j \<and> lat1 ! i = lat2 ! j"
    using that is_water_same_point [of ds lon1 lat1 n1 h1 l1 r1 lon2 lat2 n2 h2 l2 r2 i j] by blast
  from a b show ?thesis by blast
qed

theorem cache_never_alters_result_witness:
  "run_queries (tile_size two_rasters) [(1 / 2, 1 / 2)] (allocate_cache two_rasters) =
     Inr [\<lparr>dataset_info = flat_raster 0, tile_cache =
            \<lparr>max_tiles = 4, tile_map = fmupd (0, 0) [0, 0, 0, 0] fmempty,
             access_order = [(0, 0)]\<rparr>\<rparr>,
          \<lparr>dataset_info = flat_raster 1, tile_cache =
            \<lparr>max_tiles = 4, tile_map = fmupd (0, 0) [1, 1, 1, 1] fmempty,
             access_order = [(0, 0)]\<rparr>\<rparr>] \<and>
   outcome (is_water_point (tile_size two_rasters) (1 / 2) (1 / 2)
     [\<lparr>dataset_info = flat_raster 0, tile_cache =
         \<lparr>max_tiles = 4, tile_map = fmupd (0, 0) [0, 0, 0, 0] fmempty,
          access_order = [(0, 0)]\<rparr>\<rparr>,
      \<lparr>dataset_info = flat_raster 1, tile_cache =
         \<lparr>max_tiles = 4, tile_map = fmupd (0, 0) [1, 1, 1, 1] fmempty,
          access_order = [(0, 0)]\<rparr>\<rparr>]) = Inr True \<and>
   is_water two_rasters [1 / 2, 1 / 2] [1 / 2, 1 / 2] 1 4 (\<lambda>ix. True) = Inr [True, True] \<and>
   is_water two_rasters [1 / 2, 1 / 2] [1 / 2, 1 / 2] 2 4 (\<lambda>ix. False) = Inr [True, True] \<and>
   (0 :: nat) < length [1 / 2, 1 / 2 :: double] \<and> (1 :: nat) < length [1 / 2, 1 / 2 :: double] \<and>
   [1 / 2, 1 / 2 :: double] ! 0 = [1 / 2, 1 / 2] ! 1 \<and>
   [True, True] ! 0 = [True, True] ! 1"
proof -
  let ?warm = "[\<lparr>dataset_info = flat_raster 0, tile_cache =
            \<lparr>max_tiles = 4, tile_map = fmupd (0, 0) [0, 0, 0, 0] fmempty,
             access_order = [(0, 0)]\<rparr>\<rparr>,
          \<lparr>dataset_info = flat_raster 1, tile_cache =
            \<lparr>max_tiles = 4, tile_map = fmupd (0, 0) [1, 1, 1, 1] fmempty,
             access_order = [(0, 0)]\<rparr>\<rparr>]"
  have t: "tile_size two_rasters = 2" by (rule two_rasters_tile_size)
  have r: "run_queries (tile_size two_rasters) [(1 / 2, 1 / 2)] (allocate_cache two_rasters) =
     Inr ?warm"
    by (simp add: t two_rasters_query)
  have s: "is_water two_rasters [1 / 2, 1 / 2] [1 / 2, 1 / 2] 1 4 (\<lambda>ix. True) = Inr [True, True]"
    by (rule two_rasters_batch_sync)
  have p: "is_water two_rasters [1 / 2, 1 / 2] [1 / 2, 1 / 2] 2 4 (\<lambda>ix. False) = Inr [True, True]"
    by (rule two_rasters_batch_threads)
  have o: "outcome (is_water_point (tile_size two_rasters) (1 / 2) (1 / 2)
             (allocate_cache two_rasters)) = Inr True"
    by (simp add: t two_rasters_query outcome_simps)
  note c = cache_never_alters_result [of two_rasters "[(1 / 2, 1 / 2)]" ?warm "1 / 2" "1 / 2"
      "[1 / 2, 1 / 2]" "[1 / 2, 1 / 2]" 1 4 "\<lambda>ix. True" "[True, True]"
      "[1 / 2, 1 / 2]" "[1 / 2, 1 / 2]" 2 4 "\<lambda>ix. False" "[True, True]" 0 1]
  from c r have "outcome (is_water_point (tile_size two_rasters) (1 / 2) (1 / 2) ?warm) =
      outcome (is_water_point (tile_size two_rasters) (1 / 2) (1 / 2)
        (allocate_cache two_rasters))"
    by blast
  with o have w: "outcome (is_water_point (tile_size two_rasters) (1 / 2) (1 / 2) ?warm) =
      Inr True"
    by (simp only:)
  have e: "[True, True] ! 0 = [True, True] ! 1"
    using c s p by simp
  have l: "(0 :: nat) < length [1 / 2, 1 / 2 :: double]"
    "(1 :: nat) < length [1 / 2, 1 / 2 :: double]"
    "[1 / 2, 1 / 2 :: double] ! 0 = [1 / 2, 1 / 2] ! 1"
    by simp_all
  from r w s p l e show ?thesis by (intro conjI)
qed

end
